theory Spec2Isabelle
  imports Main "HOL-Library.Char_ord" "HOL-Library.List_Lexorder"
begin

section \<open>Strings\<close>

text \<open>
  JavaScript strings are modelled as \<open>string\<close> over 8-bit characters; the case conversions
  and character classes below are those of JavaScript on ASCII text.
\<close>

definition is_lower :: "char \<Rightarrow> bool" where
  "is_lower c = (CHR ''a'' \<le> c \<and> c \<le> CHR ''z'')"

definition is_upper :: "char \<Rightarrow> bool" where
  "is_upper c = (CHR ''A'' \<le> c \<and> c \<le> CHR ''Z'')"

definition is_digit :: "char \<Rightarrow> bool" where
  "is_digit c = (CHR ''0'' \<le> c \<and> c \<le> CHR ''9'')"

text \<open>An ASCII letter changes case by its bit of weight 32.\<close>

definition toUpperChar :: "char \<Rightarrow> char" where
  "toUpperChar c =
     (if is_lower c
      then (case c of Char b0 b1 b2 b3 b4 b5 b6 b7 \<Rightarrow> Char b0 b1 b2 b3 b4 False b6 b7)
      else c)"

definition toLowerChar :: "char \<Rightarrow> char" where
  "toLowerChar c =
     (if is_upper c
      then (case c of Char b0 b1 b2 b3 b4 b5 b6 b7 \<Rightarrow> Char b0 b1 b2 b3 b4 True b6 b7)
      else c)"

definition toUpperCase :: "string \<Rightarrow> string" where
  "toUpperCase s = map toUpperChar s"

definition toLowerCase :: "string \<Rightarrow> string" where
  "toLowerCase s = map toLowerChar s"

fun startsWith :: "string \<Rightarrow> string \<Rightarrow> bool" where
  "startsWith s [] = True"
| "startsWith [] (p # ps) = False"
| "startsWith (c # cs) (p # ps) = (c = p \<and> startsWith cs ps)"

fun includes_str :: "string \<Rightarrow> string \<Rightarrow> bool" where
  "includes_str [] p = (p = [])"
| "includes_str (c # cs) p = (startsWith (c # cs) p \<or> includes_str cs p)"

text \<open>\<open>s.replace(p, r)\<close> with a string pattern replaces the first occurrence only.\<close>

fun replace_first :: "string \<Rightarrow> string \<Rightarrow> string \<Rightarrow> string" where
  "replace_first [] p r = (if p = [] then r else [])"
| "replace_first (c # cs) p r =
     (if startsWith (c # cs) p then r @ drop (length p) (c # cs)
      else c # replace_first cs p r)"

fun join :: "string \<Rightarrow> string list \<Rightarrow> string" where
  "join sep [] = []"
| "join sep [x] = x"
| "join sep (x # y # xs) = x @ sep @ join sep (y # xs)"

definition digit_char :: "nat \<Rightarrow> char" where
  "digit_char d = ''0123456789'' ! d"

fun show_nat :: "nat \<Rightarrow> string" where
  "show_nat n =
     (if n < 10 then [digit_char n] else show_nat (n div 10) @ [digit_char (n mod 10)])"

declare show_nat.simps [simp del]

definition show_int :: "int \<Rightarrow> string" where
  "show_int i = (if i < 0 then CHR ''-'' # show_nat (nat (- i)) else show_nat (nat i))"

definition quote :: "string \<Rightarrow> string" where
  "quote s = [CHR 0x27] @ s @ [CHR 0x27]"

text \<open>
  \<open>toPascalCase\<close>: the first \<open>replace\<close> rewrites every non-overlapping match of
  \<open>/[-_]([a-z])/g\<close> from left to right, the second one capitalises a leading lower-case letter.
\<close>

fun pascal_inner :: "string \<Rightarrow> string" where
  "pascal_inner (c # d # cs) =
     (if (c = CHR ''-'' \<or> c = CHR ''_'') \<and> is_lower d
      then toUpperChar d # pascal_inner cs
      else c # pascal_inner (d # cs))"
| "pascal_inner cs = cs"

definition toPascalCase :: "string \<Rightarrow> string" where
  "toPascalCase str =
     (case pascal_inner str of
        [] \<Rightarrow> []
      | c # cs \<Rightarrow> (if is_lower c then toUpperChar c # cs else c # cs))"

definition is_word_char :: "char \<Rightarrow> bool" where
  "is_word_char c = (is_lower c \<or> is_upper c \<or> is_digit c \<or> c = CHR ''_'')"

definition needsQuotes :: "string \<Rightarrow> bool" where
  "needsQuotes str = (\<not> list_all is_word_char str)"

text \<open>A JavaScript \<open>Set\<close> keeps the first insertion of each element.\<close>

definition set_add :: "'a list \<Rightarrow> 'a \<Rightarrow> 'a list" where
  "set_add xs x = (if x \<in> set xs then xs else xs @ [x])"

definition new_Set :: "'a list \<Rightarrow> 'a list" where
  "new_Set xs = foldl set_add [] xs"

text \<open>
  \<open>Map.set\<close> and the assignment to an object property: an existing key keeps its position
  and takes the new value, a new key is appended.
\<close>

fun map_set :: "('k \<times> 'v) list \<Rightarrow> 'k \<Rightarrow> 'v \<Rightarrow> ('k \<times> 'v) list" where
  "map_set [] k v = [(k, v)]"
| "map_set ((k', v') # kvs) k v =
     (if k' = k then (k, v) # kvs else (k', v') # map_set kvs k v)"

definition object_assign :: "('k \<times> 'v) list \<Rightarrow> ('k \<times> 'v) list \<Rightarrow> ('k \<times> 'v) list" where
  "object_assign target source = foldl (\<lambda>t (k, v). map_set t k v) target source"

section \<open>The document\<close>

text \<open>
  The parsed document, with the fields of \<open>OpenAPISchema\<close> that the generator reads. An
  object with arbitrary keys (\<open>properties\<close>, \<open>schemas\<close>, \<open>paths\<close>, \<open>responses\<close>,
  \<open>content\<close>) is the list of its entries in the order in which \<open>Object.entries\<close>
  enumerates them. The numeric bounds are integers.

  An enumeration's values are a JavaScript array, which \<open>sort\<close> changes in place and which
  the enum registry shares with the document. The arrays therefore live in a store, and a
  schema holds the address of its array.
\<close>

datatype enum_value = EStr string | ENum int

type_synonym array_ref = nat
type_synonym store = "array_ref \<Rightarrow> enum_value list"

datatype schema = Schema
  (type: "string option")
  (format: "string option")
  (enum: "array_ref option")
  (minimum: "int option")
  (maximum: "int option")
  (minLength: "int option")
  (maxLength: "int option")
  (pattern: "string option")
  (properties: "(string \<times> schema) list option")
  (items: "schema option")
  (required: "string list option")
  (allOf: "schema list option")
  (ref: "string option")
  (title: "string option")

record response =
  content :: "(string \<times> schema option) list option"

record operation =
  operationId :: "string option"
  responses :: "(string \<times> response) list"

record document =
  paths :: "(string \<times> (string \<times> operation) list) list"
  schemas :: "(string \<times> schema) list option"

text \<open>
  JavaScript's truthiness of an optional string: \<open>undefined\<close> and the empty string are falsy.
  An optional object or array is truthy whenever it is present.
\<close>

definition truthy :: "string option \<Rightarrow> bool" where
  "truthy x = (case x of None \<Rightarrow> False | Some s \<Rightarrow> s \<noteq> [])"

definition schemas_prefix :: string where
  "schemas_prefix = ''#/components/schemas/''"

definition lookup_schema :: "document \<Rightarrow> string \<Rightarrow> schema option" where
  "lookup_schema doc name = (case schemas doc of None \<Rightarrow> None | Some ss \<Rightarrow> map_of ss name)"

definition with_title :: "schema \<Rightarrow> string \<Rightarrow> schema" where
  "with_title s t =
     (case s of Schema ty fo en mi ma ml xl pa pr it rq ao rf ti \<Rightarrow>
        Schema ty fo en mi ma ml xl pa pr it rq ao rf (Some t))"

section \<open>Reference resolver\<close>

definition resolveRef :: "string \<Rightarrow> document \<Rightarrow> schema option" where
  "resolveRef r doc =
     (if \<not> startsWith r schemas_prefix then None
      else
        (let schemaName = replace_first r schemas_prefix [] in
         case lookup_schema doc schemaName of
           None \<Rightarrow> None
         | Some s \<Rightarrow>
             (if type s = Some ''string'' \<or> type s = Some ''number'' \<or>
                 type s = Some ''integer'' \<or> type s = Some ''boolean'' \<or> enum s \<noteq> None
              then Some (with_title s schemaName)
              else Some s)))"

definition isEnumSchema :: "store \<Rightarrow> schema \<Rightarrow> bool" where
  "isEnumSchema h s =
     (type s = Some ''string'' \<and> (case enum s of None \<Rightarrow> False | Some a \<Rightarrow> length (h a) > 0))"

definition getEnums :: "store \<Rightarrow> document \<Rightarrow> (string \<times> array_ref) list" where
  "getEnums h doc =
     (case schemas doc of
        None \<Rightarrow> []
      | Some ss \<Rightarrow>
          foldl (\<lambda>enums (name, s). if isEnumSchema h s then map_set enums name (the (enum s)) else enums)
            [] ss)"

section \<open>Dependency graph builder\<close>

text \<open>
  The inner \<open>processSchema\<close> adds the names it meets to one \<open>Set\<close>, in the order of its
  traversal: the schema's own reference, then the members of \<open>allOf\<close>, then the property
  schemas, then \<open>items\<close>. It is the list of the names met, added to the set one by one.
\<close>

fun processSchema :: "schema \<Rightarrow> string list" where
  "processSchema (Schema ty fo en mi ma ml xl pa pr it rq ao rf ti) =
     (if truthy rf \<and> startsWith (the rf) schemas_prefix
      then [replace_first (the rf) schemas_prefix []] else [])
     @ (case ao of None \<Rightarrow> [] | Some subs \<Rightarrow> concat (map processSchema subs))
     @ (case pr of None \<Rightarrow> [] | Some ps \<Rightarrow> concat (map (\<lambda>(name, s). processSchema s) ps))
     @ (case it of None \<Rightarrow> [] | Some i \<Rightarrow> processSchema i)"

definition getSchemaRefs :: "schema \<Rightarrow> string list" where
  "getSchemaRefs s = new_Set (processSchema s)"

definition getParentClasses :: "schema \<Rightarrow> string list" where
  "getParentClasses s =
     (if truthy (ref s) \<and> startsWith (the (ref s)) schemas_prefix
      then [replace_first (the (ref s)) schemas_prefix []] else [])
     @ (case allOf s of
          None \<Rightarrow> []
        | Some subs \<Rightarrow>
            map (\<lambda>sub. replace_first (the (ref sub)) schemas_prefix [])
              (filter (\<lambda>sub. truthy (ref sub) \<and> startsWith (the (ref sub)) schemas_prefix) subs))"

text \<open>
  \<open>buildSchemaDependencyGraph\<close>: every declared schema is a key; its dependencies are the
  set built from its references followed by its parents.
\<close>

definition buildSchemaDependencyGraph :: "document \<Rightarrow> (string \<times> string list) list" where
  "buildSchemaDependencyGraph doc =
     (let ss = (case schemas doc of None \<Rightarrow> [] | Some ss \<Rightarrow> ss);
          graph0 = foldl (\<lambda>g name. map_set g name []) [] (map fst ss)
      in foldl (\<lambda>g (name, s). map_set g name (new_Set (getSchemaRefs s @ getParentClasses s)))
           graph0 ss)"

section \<open>The schema dependency graph and its cycle-tolerant ordering\<close>

text \<open>
  The dependency graph is a JavaScript \<open>Map<string, Set<string>>\<close>. Both the map's keys and
  each dependency set are iterated in insertion order, so the graph is an association list
  from a schema name to the list of names it references. \<open>graph.get(node) || new Set()\<close>
  reads a name that is not a key as a node without dependencies.
\<close>

type_synonym graph = "(string \<times> string list) list"

definition graph_get :: "graph \<Rightarrow> string \<Rightarrow> string list" where
  "graph_get g node = (case map_of g node of None \<Rightarrow> [] | Some ds \<Rightarrow> ds)"

definition graph_keys :: "graph \<Rightarrow> string list" where
  "graph_keys g = map fst g"

text \<open>
  The closure variables of \<open>sortSchemasByDependency\<close> during its first pass. The sets
  \<open>visited\<close>, \<open>visiting\<close> and \<open>cycles\<close> are only asked for membership; \<open>sorted_nodes\<close> is the array \<open>sorted\<close>,
  which the pass builds with \<open>unshift\<close>.
\<close>

record visit_state =
  visited :: "string set"
  visiting :: "string set"
  cycles :: "string set"
  sorted_nodes :: "string list"

text \<open>
  \<open>visit\<close> is recursive through the loop over the dependencies. The first argument bounds
  the depth of the recursion: \<open>None\<close> means that the bound was too small.
\<close>

fun visit :: "nat \<Rightarrow> graph \<Rightarrow> string \<Rightarrow> string set \<Rightarrow> visit_state \<Rightarrow> visit_state option"
  and visit_deps :: "nat \<Rightarrow> graph \<Rightarrow> string list \<Rightarrow> string set \<Rightarrow> visit_state \<Rightarrow> visit_state option"
where
  "visit 0 g node path s = None"
| "visit (Suc k) g node path s =
     (if node \<in> visited s then Some s
      else if node \<in> visiting s then Some (s\<lparr>cycles := cycles s \<union> path\<rparr>)
      else
        (case visit_deps k g (graph_get g node) (insert node path)
                (s\<lparr>visiting := insert node (visiting s)\<rparr>) of
           None \<Rightarrow> None
         | Some s' \<Rightarrow>
             Some (s'\<lparr>visiting := visiting s' - {node},
                      visited := insert node (visited s'),
                      sorted_nodes := node # sorted_nodes s'\<rparr>)))"
| "visit_deps k g [] path s = Some s"
| "visit_deps k g (dep # deps) path s =
     (if dep \<notin> visited s
      then (case visit k g dep path s of
              None \<Rightarrow> None
            | Some s' \<Rightarrow> visit_deps k g deps path s')
      else visit_deps k g deps path s)"

text \<open>The loop \<open>for (const node of graph.keys()) if (!visited.has(node)) visit(node)\<close>.\<close>

fun first_pass :: "nat \<Rightarrow> graph \<Rightarrow> string list \<Rightarrow> visit_state \<Rightarrow> visit_state option" where
  "first_pass k g [] s = Some s"
| "first_pass k g (node # nodes) s =
     (if node \<notin> visited s
      then (case visit k g node {} s of
              None \<Rightarrow> None
            | Some s' \<Rightarrow> first_pass k g nodes s')
      else first_pass k g nodes s)"

text \<open>The closure variables of the second pass.\<close>

record process_state =
  finalSorted :: "string list"
  processed :: "string set"

text \<open>
  The second loop of \<open>processNode\<close>: a dependency marked as cycle participant that is not
  yet processed is pushed as it is, without a recursive call.
\<close>

fun push_cyclic :: "string set \<Rightarrow> string list \<Rightarrow> process_state \<Rightarrow> process_state" where
  "push_cyclic cyc [] s = s"
| "push_cyclic cyc (dep # deps) s =
     (if dep \<in> cyc \<and> dep \<notin> processed s
      then push_cyclic cyc deps
             (s\<lparr>finalSorted := finalSorted s @ [dep], processed := insert dep (processed s)\<rparr>)
      else push_cyclic cyc deps s)"

fun processNode :: "nat \<Rightarrow> graph \<Rightarrow> string set \<Rightarrow> string \<Rightarrow> process_state \<Rightarrow> process_state option"
  and process_noncyclic ::
    "nat \<Rightarrow> graph \<Rightarrow> string set \<Rightarrow> string list \<Rightarrow> process_state \<Rightarrow> process_state option"
where
  "processNode 0 g cyc node s = None"
| "processNode (Suc k) g cyc node s =
     (if node \<in> processed s then Some s
      else
        (case process_noncyclic k g cyc (graph_get g node) s of
           None \<Rightarrow> None
         | Some s1 \<Rightarrow>
             (let s2 = push_cyclic cyc (graph_get g node) s1
              in Some (s2\<lparr>finalSorted := finalSorted s2 @ [node],
                          processed := insert node (processed s2)\<rparr>))))"
| "process_noncyclic k g cyc [] s = Some s"
| "process_noncyclic k g cyc (dep # deps) s =
     (if dep \<notin> cyc
      then (case processNode k g cyc dep s of
              None \<Rightarrow> None
            | Some s' \<Rightarrow> process_noncyclic k g cyc deps s')
      else process_noncyclic k g cyc deps s)"

text \<open>The loop \<open>for (const node of sorted) processNode(node)\<close>.\<close>

fun second_pass ::
  "nat \<Rightarrow> graph \<Rightarrow> string set \<Rightarrow> string list \<Rightarrow> process_state \<Rightarrow> process_state option" where
  "second_pass k g cyc [] s = Some s"
| "second_pass k g cyc (node # nodes) s =
     (case processNode k g cyc node s of
        None \<Rightarrow> None
      | Some s' \<Rightarrow> second_pass k g cyc nodes s')"

definition sortSchemasByDependency :: "nat \<Rightarrow> graph \<Rightarrow> string list option" where
  "sortSchemasByDependency k g =
     (case first_pass k g (graph_keys g)
             \<lparr>visited = {}, visiting = {}, cycles = {}, sorted_nodes = []\<rparr> of
        None \<Rightarrow> None
      | Some s \<Rightarrow>
          (case second_pass k g (cycles s) (sorted_nodes s) \<lparr>finalSorted = [], processed = {}\<rparr> of
             None \<Rightarrow> None
           | Some p \<Rightarrow> Some (finalSorted p)))"


subsection \<open>Notions for the analysis of the two passes\<close>

text \<open>
  The names a graph mentions: its keys and the dependencies of its keys. A name that is a
  dependency only has no dependencies of its own.
\<close>

definition node_list :: "graph \<Rightarrow> string list" where
  "node_list g = graph_keys g @ concat (map (graph_get g) (graph_keys g))"

definition graph_nodes :: "graph \<Rightarrow> string set" where
  "graph_nodes g = set (node_list g)"

definition self_reference_free :: "graph \<Rightarrow> bool" where
  "self_reference_free g = list_all (\<lambda>n. n \<notin> set (graph_get g n)) (graph_keys g)"

definition references_declared :: "graph \<Rightarrow> bool" where
  "references_declared g =
     list_all (\<lambda>n. list_all (\<lambda>d. d \<in> set (graph_keys g)) (graph_get g n)) (graph_keys g)"

text \<open>
  The order that the first pass establishes on \<open>sorted\<close>, which lists a node before the
  nodes finished earlier: every dependency of a node stands behind the node, unless the
  node and the dependency are both marked as cycle participants.
\<close>

fun topo_ok :: "graph \<Rightarrow> string set \<Rightarrow> string list \<Rightarrow> bool" where
  "topo_ok g cyc [] = True"
| "topo_ok g cyc (u # ys) =
     (list_all (\<lambda>d. d \<in> set ys \<or> (u \<in> cyc \<and> d \<in> cyc)) (graph_get g u) \<and> topo_ok g cyc ys)"

text \<open>The number of nodes from a node to the end of the list; 0 for a node not in it.\<close>

definition rank_in :: "string list \<Rightarrow> string \<Rightarrow> nat" where
  "rank_in L u = length (dropWhile (\<lambda>x. x \<noteq> u) L)"

text \<open>What holds of the state of the first pass between any two steps.\<close>

definition visit_inv :: "graph \<Rightarrow> visit_state \<Rightarrow> bool" where
  "visit_inv g s =
     (visited s = set (sorted_nodes s)
      \<and> distinct (sorted_nodes s)
      \<and> visited s \<inter> visiting s = {}
      \<and> topo_ok g (cycles s) (sorted_nodes s)
      \<and> visited s \<union> visiting s \<subseteq> graph_nodes g
      \<and> cycles s \<subseteq> visited s \<union> visiting s)"

text \<open>What a call of \<open>visit\<close>, and the loop over the dependencies, add to it.\<close>

definition visit_post :: "graph \<Rightarrow> string \<Rightarrow> string set \<Rightarrow> visit_state \<Rightarrow> visit_state \<Rightarrow> bool" where
  "visit_post g node path s s' =
     (visit_inv g s' \<and> visiting s' = visiting s \<and> visited s \<subseteq> visited s'
      \<and> cycles s \<subseteq> cycles s'
      \<and> (node \<in> visited s' \<or> (node \<in> path \<and> path \<subseteq> cycles s')))"

definition deps_post ::
  "graph \<Rightarrow> string list \<Rightarrow> string set \<Rightarrow> visit_state \<Rightarrow> visit_state \<Rightarrow> bool" where
  "deps_post g deps path s s' =
     (visit_inv g s' \<and> visiting s' = visiting s \<and> visited s \<subseteq> visited s'
      \<and> cycles s \<subseteq> cycles s'
      \<and> list_all (\<lambda>d. d \<in> visited s' \<or> (d \<in> path \<and> path \<subseteq> cycles s')) deps)"

text \<open>
  What holds of the state of the second pass: \<open>processed\<close> is the set of the names pushed,
  all of them nodes of the list \<open>L\<close> of the first pass, and no name is pushed twice when
  \<open>D\<close>, the absence of self references, holds.
\<close>

definition process_inv :: "bool \<Rightarrow> string list \<Rightarrow> process_state \<Rightarrow> bool" where
  "process_inv D L p =
     (set (finalSorted p) = processed p \<and> processed p \<subseteq> set L
      \<and> (D \<longrightarrow> distinct (finalSorted p)))"

section \<open>Property names within a class\<close>

text \<open>
  The loop \<open>while (usedProperties.has(uniquePropertyName))\<close> of \<open>generateClassProperty\<close>:
  \<open>next_free\<close> is the loop from its second test on, with the counter as its variable.
  It ends because the candidates \<open>propertyName1, propertyName2, ...\<close> are pairwise distinct
  and the set is finite.
\<close>

function next_free :: "string list \<Rightarrow> string \<Rightarrow> nat \<Rightarrow> string" where
  "next_free used propertyName counter =
     (if propertyName @ show_nat counter \<in> set used
      then next_free used propertyName (Suc counter)
      else propertyName @ show_nat counter)"
  by pat_completeness auto
termination
proof (relation "measure (\<lambda>(used, pn, c). card {x \<in> set used. \<exists>k\<ge>c. x = pn @ show_nat k})")
  show "wf (measure (\<lambda>(used, pn, c). card {x \<in> set used. \<exists>k\<ge>c. x = pn @ show_nat k}))"
    by simp
next
  fix used :: "string list" and propertyName :: string and counter :: nat
  assume taken: "propertyName @ show_nat counter \<in> set used"
  have digit: "\<And>d. d < 10 \<Longrightarrow> of_char (digit_char d) = 48 + d"
  proof -
    fix d :: nat
    assume "d < 10"
    then have "d \<in> {0, 1, 2, 3, 4, 5, 6, 7, 8, 9}" by auto
    then show "of_char (digit_char d) = 48 + d"
      by (auto simp: digit_char_def)
  qed
  have val: "\<And>n. foldl (\<lambda>a ch. 10 * a + (of_char ch - 48)) 0 (show_nat n) = n"
  proof -
    fix n :: nat
    show "foldl (\<lambda>a ch. 10 * a + (of_char ch - 48)) 0 (show_nat n) = n"
    proof (induction n rule: show_nat.induct)
      case (1 n)
      show ?case
      proof (cases "n < 10")
        case True
        then show ?thesis by (simp add: show_nat.simps [of n] digit)
      next
        case False
        then have "foldl (\<lambda>a ch. 10 * a + (of_char ch - 48)) 0 (show_nat (n div 10)) = n div 10"
          using "1.IH" by simp
        with False show ?thesis by (simp add: show_nat.simps [of n] digit)
      qed
    qed
  qed
  have inj: "\<And>k. show_nat counter = show_nat k \<Longrightarrow> counter = k"
    by (metis val)
  let ?S = "\<lambda>c. {x \<in> set used. \<exists>k\<ge>c. x = propertyName @ show_nat k}"
  have "propertyName @ show_nat counter \<in> ?S counter"
    using taken by auto
  moreover have "propertyName @ show_nat counter \<notin> ?S (Suc counter)"
    using inj by auto
  moreover have "?S (Suc counter) \<subseteq> ?S counter"
    using Suc_leD by blast
  ultimately have "?S (Suc counter) \<subset> ?S counter"
    by blast
  then have "card (?S (Suc counter)) < card (?S counter)"
    by (intro psubset_card_mono) auto
  then show "((used, propertyName, Suc counter), (used, propertyName, counter))
      \<in> measure (\<lambda>(used, pn, c). card {x \<in> set used. \<exists>k\<ge>c. x = pn @ show_nat k})"
    by simp
qed

declare next_free.simps [simp del]

definition uniquePropertyName :: "string list \<Rightarrow> string \<Rightarrow> string" where
  "uniquePropertyName used propertyName =
     (if propertyName \<in> set used then next_free used propertyName 1 else propertyName)"

section \<open>Name registries\<close>

text \<open>
  The state of one generation run: the module-level map \<open>schemaToClassName\<close>, the sets and
  maps that \<open>generateClassesFromOpenAPI\<close> creates and hands to every call, and the store of
  the enumeration arrays. \<open>Math.random().toString(36).substring(2, 8)\<close> is read from a
  sequence of tokens: \<open>random_tokens\<close> gives the token of the n-th call and \<open>random_calls\<close>
  counts the calls made so far.
\<close>

record gen_state =
  schemaToClassName :: "(string \<times> string) list"
  usedNames :: "string list"
  usedEnums :: "(string \<times> array_ref) list"
  classMap :: "(string \<times> string) list"
  store :: "array_ref \<Rightarrow> enum_value list"
  random_tokens :: "nat \<Rightarrow> string"
  random_calls :: nat

definition has_key :: "('k \<times> 'v) list \<Rightarrow> 'k \<Rightarrow> bool" where
  "has_key m k = (k \<in> fst ` set m)"

definition getClassNameFromOperationId :: "string \<Rightarrow> string \<Rightarrow> gen_state \<Rightarrow> string \<times> gen_state" where
  "getClassNameFromOperationId opId statusCode st =
     (let baseClassName = toPascalCase opId @ statusCode @ ''Response'' in
      if baseClassName \<notin> set (usedNames st)
      then (baseClassName, st\<lparr>usedNames := set_add (usedNames st) baseClassName\<rparr>)
      else
        (case find (\<lambda>newName. newName \<notin> set (usedNames st))
                (map (\<lambda>suffix. baseClassName @ suffix)
                   [''Detail'', ''Extended'', ''Full'', ''Complete'', ''Info'']) of
           Some newName \<Rightarrow> (newName, st\<lparr>usedNames := set_add (usedNames st) newName\<rparr>)
         | None \<Rightarrow>
             (let uniqueSuffix = random_tokens st (random_calls st);
                  fallbackName = baseClassName @ ''_'' @ uniqueSuffix
              in (fallbackName,
                  st\<lparr>usedNames := set_add (usedNames st) fallbackName,
                     random_calls := Suc (random_calls st)\<rparr>))))"

definition getClassNameFromSchemaName :: "string \<Rightarrow> gen_state \<Rightarrow> string \<times> gen_state" where
  "getClassNameFromSchemaName schemaName st =
     (case map_of (schemaToClassName st) schemaName of
        Some className \<Rightarrow> (className, st)
      | None \<Rightarrow>
          (if schemaName \<notin> set (usedNames st)
           then (schemaName,
                 st\<lparr>usedNames := set_add (usedNames st) schemaName,
                    schemaToClassName := map_set (schemaToClassName st) schemaName schemaName\<rparr>)
           else
             (let pascalName = toPascalCase schemaName in
              if pascalName \<notin> set (usedNames st)
              then (pascalName,
                    st\<lparr>usedNames := set_add (usedNames st) pascalName,
                       schemaToClassName := map_set (schemaToClassName st) schemaName pascalName\<rparr>)
              else
                (case find (\<lambda>newName. newName \<notin> set (usedNames st))
                        (map (\<lambda>suffix. pascalName @ suffix)
                           [''Model'', ''Type'', ''Entity'', ''Object'', ''Data'']) of
                   Some newName \<Rightarrow>
                     (newName,
                      st\<lparr>usedNames := set_add (usedNames st) newName,
                         schemaToClassName := map_set (schemaToClassName st) schemaName newName\<rparr>)
                 | None \<Rightarrow>
                     (let uniqueSuffix = random_tokens st (random_calls st);
                          fallbackName = pascalName @ ''_'' @ uniqueSuffix
                      in (fallbackName,
                          st\<lparr>usedNames := set_add (usedNames st) fallbackName,
                             schemaToClassName :=
                               map_set (schemaToClassName st) schemaName fallbackName,
                             random_calls := Suc (random_calls st)\<rparr>))))))"

text \<open>
  \<open>Array.prototype.sort\<close> without a comparator orders the elements by their string
  conversions and is stable; it changes the array in place.
\<close>

definition enum_to_string :: "enum_value \<Rightarrow> string" where
  "enum_to_string v = (case v of EStr s \<Rightarrow> s | ENum n \<Rightarrow> show_int n)"

definition js_sort :: "enum_value list \<Rightarrow> enum_value list" where
  "js_sort vs = sort_key enum_to_string vs"

text \<open>
  The loop over \<open>usedEnums.entries()\<close>: each array met is sorted in place before its
  serialisation is compared with the key. \<open>JSON.stringify\<close> is injective on arrays of strings
  and integers, so two serialisations are equal exactly when the arrays are.
\<close>

fun find_existing_enum ::
  "(string \<times> array_ref) list \<Rightarrow> enum_value list \<Rightarrow> store \<Rightarrow> string option \<times> store" where
  "find_existing_enum [] enumKey h = (None, h)"
| "find_existing_enum ((existingName, existingValues) # rest) enumKey h =
     (let h' = h(existingValues := js_sort (h existingValues)) in
      if h' existingValues = enumKey then (Some existingName, h')
      else find_existing_enum rest enumKey h')"

definition getEnumNameFromProperty ::
  "string \<Rightarrow> array_ref \<Rightarrow> string \<Rightarrow> gen_state \<Rightarrow> string \<times> gen_state" where
  "getEnumNameFromProperty propertyName enumValues context st =
     (let h1 = (store st)(enumValues := js_sort (store st enumValues));
          enumKey = h1 enumValues
      in case find_existing_enum (usedEnums st) enumKey h1 of
           (Some existingName, h2) \<Rightarrow> (existingName, st\<lparr>store := h2\<rparr>)
         | (None, h2) \<Rightarrow>
             (let baseName =
                    (if toLowerCase propertyName = ''currency'' then ''Currency''
                     else if toLowerCase propertyName = ''status''
                     then toPascalCase context @ ''Status''
                     else toPascalCase context @ toPascalCase propertyName)
              in
              if \<not> has_key (usedEnums st) baseName
              then (baseName,
                    st\<lparr>store := h2, usedEnums := map_set (usedEnums st) baseName enumValues\<rparr>)
              else
                (case find (\<lambda>newName. \<not> has_key (usedEnums st) newName)
                        (map (\<lambda>suffix. baseName @ suffix)
                           [''Type'', ''Enum'', ''Values'', ''Options'', ''List'']) of
                   Some newName \<Rightarrow>
                     (newName,
                      st\<lparr>store := h2, usedEnums := map_set (usedEnums st) newName enumValues\<rparr>)
                 | None \<Rightarrow>
                     (let uniqueSuffix = random_tokens st (random_calls st);
                          fallbackName = baseName @ ''_'' @ uniqueSuffix
                      in (fallbackName,
                          st\<lparr>store := h2,
                             usedEnums := map_set (usedEnums st) fallbackName enumValues,
                             random_calls := Suc (random_calls st)\<rparr>)))))"

section \<open>Enumeration declarations\<close>

definition enum_member :: "nat \<times> enum_value \<Rightarrow> string" where
  "enum_member iv =
     (case iv of
        (i, EStr s) \<Rightarrow>
          toUpperCase (map (\<lambda>c. if is_word_char c then c else CHR ''_'') s) @ '' = '' @ quote s
      | (i, ENum n) \<Rightarrow> ''VALUE_'' @ show_nat i @ '' = '' @ show_int n)"

text \<open>The declaration of an enumeration found inline in a property.\<close>

definition inline_enum_definition :: "string \<Rightarrow> enum_value list \<Rightarrow> string" where
  "inline_enum_definition enumName vs =
     ''export enum '' @ enumName @ '' { \<newline>  ''
       @ join '',\<newline>  '' (map enum_member (enumerate 0 vs)) @ '' \<newline>}''"

text \<open>The declaration of a top-level schema that is an enumeration.\<close>

definition toplevel_enum_definition :: "string \<Rightarrow> enum_value list \<Rightarrow> string" where
  "toplevel_enum_definition enumName vs =
     ''export enum '' @ enumName @ '' {\<newline>  ''
       @ join '',\<newline>  '' (map enum_member (enumerate 0 vs)) @ ''\<newline>}''"

section \<open>Validation decorators\<close>

definition name_decorator :: "string \<Rightarrow> string option" where
  "name_decorator lowerPropertyName =
     (if lowerPropertyName = ''latitude'' then Some ''@IsLatitude()''
      else if lowerPropertyName = ''longitude'' then Some ''@IsLongitude()''
      else if lowerPropertyName = ''email'' \<or> includes_str lowerPropertyName ''email''
      then Some ''@IsEmail()''
      else if lowerPropertyName = ''creditcard'' \<or> includes_str lowerPropertyName ''credit_card''
              \<or> includes_str lowerPropertyName ''creditcard''
      then Some ''@IsCreditCard()''
      else if lowerPropertyName = ''phone'' \<or> includes_str lowerPropertyName ''phone''
      then Some ''@IsPhoneNumber()''
      else if lowerPropertyName = ''postalcode'' \<or> includes_str lowerPropertyName ''postal_code''
              \<or> includes_str lowerPropertyName ''zip''
      then Some ''@IsPostalCode()''
      else if lowerPropertyName = ''uuid'' \<or> includes_str lowerPropertyName ''uuid''
      then Some ''@IsUUID()''
      else if lowerPropertyName = ''url'' \<or> includes_str lowerPropertyName ''url''
      then Some ''@IsUrl()''
      else if lowerPropertyName = ''ip'' \<or> includes_str lowerPropertyName ''ip_address''
      then Some ''@IsIP()''
      else if lowerPropertyName = ''mongodb'' \<or> includes_str lowerPropertyName ''mongo_id''
              \<or> lowerPropertyName = ''objectid''
      then Some ''@IsMongoId()''
      else None)"

definition format_decorator :: "string \<Rightarrow> string list" where
  "format_decorator f =
     (if f = ''email'' then [''@IsEmail()'']
      else if f = ''uri'' \<or> f = ''url'' then [''@IsUrl()'']
      else if f = ''uuid'' then [''@IsUUID()'']
      else if f = ''ipv4'' \<or> f = ''ipv6'' then [''@IsIP()'']
      else [])"

definition type_decorators :: "schema \<Rightarrow> string list" where
  "type_decorators s =
     (if type s = Some ''string'' then
        (if format s = Some ''date'' \<or> format s = Some ''date-time''
         then [''@IsDate()'', ''@Transform(({ value }) => value ? new Date(value) : value)'']
         else [''@IsString()'']
           @ (case minLength s of None \<Rightarrow> [] | Some n \<Rightarrow> [''@MinLength('' @ show_int n @ '')''])
           @ (case maxLength s of None \<Rightarrow> [] | Some n \<Rightarrow> [''@MaxLength('' @ show_int n @ '')''])
           @ (if truthy (pattern s) then [''@Matches(/'' @ the (pattern s) @ ''/)''] else [])
           @ (if truthy (format s) then format_decorator (the (format s)) else []))
      else if type s = Some ''number'' \<or> type s = Some ''integer'' then
        (if type s = Some ''integer'' then [''@IsInt()''] else [''@IsNumber()''])
        @ (case minimum s of
             None \<Rightarrow> []
           | Some n \<Rightarrow> if n = 0 then [''@IsPositive()''] else [''@Min('' @ show_int n @ '')''])
        @ (case maximum s of
             None \<Rightarrow> []
           | Some n \<Rightarrow> if n = 0 then [''@IsNegative()''] else [''@Max('' @ show_int n @ '')''])
      else if type s = Some ''boolean'' then [''@IsBoolean()'']
      else if type s = Some ''array'' \<and> items s \<noteq> None
      then [''@IsArray()'', ''@ValidateNested({ each: true })'', ''@Type(() => PLACEHOLDER)'']
      else if type s = Some ''object'' \<or> properties s \<noteq> None
      then [''@IsObject()'', ''@ValidateNested()'', ''@Type(() => PLACEHOLDER)'']
      else [])"

definition generateDecorators :: "schema \<Rightarrow> string \<Rightarrow> bool \<Rightarrow> string list" where
  "generateDecorators s propertyName isRequired =
     (let decorators = (if \<not> isRequired then [''@IsOptional()''] else []) in
      case name_decorator (toLowerCase propertyName) of
        Some d \<Rightarrow> decorators @ [d]
      | None \<Rightarrow> decorators @ type_decorators s)"

section \<open>Schema flattener\<close>

definition dedup_required :: "string list \<Rightarrow> string list" where
  "dedup_required mergedRequired = new_Set mergedRequired"

text \<open>
  \<open>mergeParentProperties\<close> follows the references of \<open>allOf\<close> through the document and does
  not return when they form a cycle; the first argument bounds the depth of its recursion.
  Its parameters \<open>usedNames\<close> and \<open>context\<close> are only handed on and are left out.
\<close>

fun mergeParentProperties ::
  "nat \<Rightarrow> schema \<Rightarrow> document \<Rightarrow> ((string \<times> schema) list \<times> string list) option"
  and merge_allOf ::
  "nat \<Rightarrow> schema list \<Rightarrow> document \<Rightarrow> (string \<times> schema) list \<times> string list
     \<Rightarrow> ((string \<times> schema) list \<times> string list) option"
where
  "mergeParentProperties 0 s doc = None"
| "mergeParentProperties (Suc k) s doc =
     (case merge_allOf k (case allOf s of None \<Rightarrow> [] | Some subs \<Rightarrow> subs) doc ([], []) of
        None \<Rightarrow> None
      | Some (mergedProperties, mergedRequired) \<Rightarrow>
          Some (case properties s of
                  None \<Rightarrow> mergedProperties
                | Some ps \<Rightarrow> object_assign mergedProperties ps,
                dedup_required
                  (mergedRequired @ (case required s of None \<Rightarrow> [] | Some rs \<Rightarrow> rs))))"
| "merge_allOf k [] doc acc = Some acc"
| "merge_allOf k (subSchema # subs) doc (mergedProperties, mergedRequired) =
     (if truthy (ref subSchema)
      then
        (case resolveRef (the (ref subSchema)) doc of
           None \<Rightarrow> merge_allOf k subs doc (mergedProperties, mergedRequired)
         | Some parentSchema \<Rightarrow>
             (case mergeParentProperties k parentSchema doc of
                None \<Rightarrow> None
              | Some (parentProps, parentRequired) \<Rightarrow>
                  merge_allOf k subs doc
                    (object_assign mergedProperties parentProps, mergedRequired @ parentRequired)))
      else
        merge_allOf k subs doc
          (object_assign mergedProperties
             (case properties subSchema of None \<Rightarrow> [] | Some ps \<Rightarrow> ps),
           mergedRequired @ (case required subSchema of None \<Rightarrow> [] | Some rs \<Rightarrow> rs)))"

text \<open>
  \<open>getAllParentClasses\<close> is recursive through the document in the same way.
\<close>

fun getAllParentClasses :: "nat \<Rightarrow> schema \<Rightarrow> document \<Rightarrow> string list option"
  and parents_of_allOf :: "nat \<Rightarrow> schema list \<Rightarrow> document \<Rightarrow> string list \<Rightarrow> string list option"
where
  "getAllParentClasses 0 s doc = None"
| "getAllParentClasses (Suc k) s doc =
     (case parents_of_allOf k (case allOf s of None \<Rightarrow> [] | Some subs \<Rightarrow> subs) doc [] of
        None \<Rightarrow> None
      | Some parents \<Rightarrow> Some (new_Set parents))"
| "parents_of_allOf k [] doc parents = Some parents"
| "parents_of_allOf k (subSchema # subs) doc parents =
     (if truthy (ref subSchema) \<and> startsWith (the (ref subSchema)) schemas_prefix
      then
        (let parentName = replace_first (the (ref subSchema)) schemas_prefix [] in
         case lookup_schema doc parentName of
           None \<Rightarrow> parents_of_allOf k subs doc (parents @ [parentName])
         | Some parentSchema \<Rightarrow>
             (case getAllParentClasses k parentSchema doc of
                None \<Rightarrow> None
              | Some ancestors \<Rightarrow> parents_of_allOf k subs doc (parents @ [parentName] @ ancestors)))
      else parents_of_allOf k subs doc parents)"

section \<open>Property and class emitter\<close>

definition property_text :: "string list \<Rightarrow> string \<Rightarrow> bool \<Rightarrow> string \<Rightarrow> string" where
  "property_text decorators formattedPropertyName isRequired propertyType =
     ''  '' @ join ''\<newline>  '' decorators @ ''\<newline>  '' @ formattedPropertyName
       @ (if \<not> isRequired then ''?'' else []) @ '': '' @ propertyType @ '';\<newline>''"

definition class_text :: "string \<Rightarrow> string \<Rightarrow> string list \<Rightarrow> string" where
  "class_text className extendsClause props =
     ''\<newline>export class '' @ className @ extendsClause @ '' {\<newline>''
       @ join ''\<newline>'' props @ ''\<newline>}''"

fun update_first :: "('a \<Rightarrow> bool) \<Rightarrow> ('a \<Rightarrow> 'a) \<Rightarrow> 'a list \<Rightarrow> 'a list" where
  "update_first P f [] = []"
| "update_first P f (x # xs) = (if P x then f x # xs else x # update_first P f xs)"

fun remove_first :: "('a \<Rightarrow> bool) \<Rightarrow> 'a list \<Rightarrow> 'a list" where
  "remove_first P [] = []"
| "remove_first P (x # xs) = (if P x then xs else x # remove_first P xs)"

text \<open>The replacement of \<open>PLACEHOLDER\<close> in the first decorator that contains it.\<close>

definition replace_placeholder :: "string list \<Rightarrow> string \<Rightarrow> string list" where
  "replace_placeholder decorators className =
     update_first (\<lambda>d. includes_str d ''PLACEHOLDER'')
       (\<lambda>d. replace_first d ''PLACEHOLDER'' className) decorators"

text \<open>The removal of the first \<open>@ValidateNested\<close> decorator and then of the first \<open>@Type\<close>.\<close>

definition remove_nested_decorators :: "string list \<Rightarrow> string list" where
  "remove_nested_decorators decorators =
     remove_first (\<lambda>d. includes_str d ''@Type'')
       (remove_first (\<lambda>d. includes_str d ''@ValidateNested'') decorators)"

text \<open>An array whose items have no generated class: the decorator pushed and the type.\<close>

definition simple_array :: "schema \<Rightarrow> string list \<Rightarrow> string list \<times> string" where
  "simple_array its decorators =
     (if type its = Some ''string''
      then (remove_nested_decorators (decorators @ [''@IsString({ each: true })'']), ''string[]'')
      else if type its = Some ''number'' \<or> type its = Some ''integer''
      then (remove_nested_decorators (decorators @ [''@IsNumber({}, { each: true })'']), ''number[]'')
      else if type its = Some ''boolean''
      then (remove_nested_decorators (decorators @ [''@IsBoolean({ each: true })'']), ''boolean[]'')
      else (remove_nested_decorators decorators, ''any[]''))"

type_synonym property_result = "string \<times> string list \<times> string list"
type_synonym properties_result = "string list \<times> string list \<times> string list"

text \<open>
  \<open>generateClassProperty\<close> and \<open>generateClassProperties\<close> call each other through nested
  object and array schemas, and through the parents that \<open>mergeParentProperties\<close> brings in,
  so the recursion need not end. It is bounded by a depth: \<open>generateClassProperties\<close> is
  defined by recursion on the bound, and the body of \<open>generateClassProperty\<close> takes the
  function for its recursive calls, \<open>generateClassProperties\<close> at the next smaller bound, as
  its first argument. A property result is the triple of \<open>property\<close>, \<open>nestedClasses\<close> and
  \<open>enums\<close>; the per-class set \<open>usedProperties\<close> and the state of the run are returned with
  it. \<open>classMap\<close>, \<open>usedNames\<close> and \<open>usedEnums\<close> are fields of the state.
\<close>

type_synonym properties_fun =
  "schema \<Rightarrow> string list \<Rightarrow> document \<Rightarrow> string \<Rightarrow> gen_state
     \<Rightarrow> (properties_result \<times> gen_state) option"

type_synonym property_fun =
  "string \<Rightarrow> schema \<Rightarrow> string list \<Rightarrow> document \<Rightarrow> string list \<Rightarrow> string \<Rightarrow> gen_state
     \<Rightarrow> (property_result \<times> string list \<times> gen_state) option"

definition generateClassProperty_body :: "properties_fun \<Rightarrow> property_fun" where
  "generateClassProperty_body generateClassProperties_rec propertyName s requiredNames doc
       usedProperties context st =
     (let isRequired = propertyName \<in> set requiredNames;
          decorators = generateDecorators s propertyName isRequired;
          usedProperties' = set_add usedProperties (uniquePropertyName usedProperties propertyName);
          formattedPropertyName =
            (if needsQuotes propertyName then quote propertyName else propertyName)
      in
      case (if truthy (ref s) then resolveRef (the (ref s)) doc else None) of
        Some refSchema \<Rightarrow>
          (let refName = replace_first (the (ref s)) schemas_prefix [];
               (className, st1) = getClassNameFromSchemaName refName st;
               decorators1 =
                 (if enum refSchema \<noteq> None
                  then decorators @ [''@IsEnum('' @ className @ '')''] else decorators);
               decorators2 = replace_placeholder decorators1 className
           in Some ((property_text decorators2 formattedPropertyName isRequired className, [], []),
                    usedProperties', st1))
      | None \<Rightarrow>
          (if type s = Some ''string'' then
             (let propertyType =
                    (if format s = Some ''date'' \<or> format s = Some ''date-time''
                     then ''Date'' else ''string'')
              in
              case enum s of
                None \<Rightarrow>
                  Some ((property_text decorators formattedPropertyName isRequired propertyType,
                         [], []), usedProperties', st)
              | Some enumValues \<Rightarrow>
                  (let (enumName, st1) = getEnumNameFromProperty propertyName enumValues context st;
                       enumDefinition = inline_enum_definition enumName (store st1 enumValues)
                   in Some ((property_text (decorators @ [''@IsEnum('' @ enumName @ '')''])
                               formattedPropertyName isRequired enumName,
                             [], [enumDefinition]), usedProperties', st1)))
           else if type s = Some ''number'' \<or> type s = Some ''integer'' then
             Some ((property_text decorators formattedPropertyName isRequired ''number'', [], []),
                   usedProperties', st)
           else if type s = Some ''boolean'' then
             Some ((property_text decorators formattedPropertyName isRequired ''boolean'', [], []),
                   usedProperties', st)
           else if type s = Some ''array'' \<and> items s \<noteq> None then
             (let its = the (items s);
                  (nestedClassName, st1) = getClassNameFromSchemaName (propertyName @ ''Item'') st
              in
              case (if truthy (ref its) then resolveRef (the (ref its)) doc else None) of
                Some refSchema \<Rightarrow>
                  (let refName = replace_first (the (ref its)) schemas_prefix [];
                       (refClassName, st2) = getClassNameFromSchemaName refName st1;
                       decorators1 = replace_placeholder decorators refClassName
                   in Some ((property_text decorators1 formattedPropertyName isRequired
                               (refClassName @ ''[]''), [], []), usedProperties', st2))
              | None \<Rightarrow>
                  (if properties its \<noteq> None then
                     (case generateClassProperties_rec its [] doc context st1 of
                        None \<Rightarrow> None
                      | Some ((props, nested, ens), st2) \<Rightarrow>
                          (if length props > 0 then
                             (let nestedClass = class_text nestedClassName [] props;
                                  st3 = st2\<lparr>classMap :=
                                          map_set (classMap st2) (propertyName @ ''.items'')
                                            nestedClassName\<rparr>;
                                  decorators1 = replace_placeholder decorators nestedClassName
                              in Some ((property_text decorators1 formattedPropertyName isRequired
                                          (nestedClassName @ ''[]''),
                                        nested @ [nestedClass], ens), usedProperties', st3))
                           else
                             (let (decorators1, propertyType) = simple_array its decorators
                              in Some ((property_text decorators1 formattedPropertyName isRequired
                                          propertyType, [], []), usedProperties', st2))))
                   else
                     (let (decorators1, propertyType) = simple_array its decorators
                      in Some ((property_text decorators1 formattedPropertyName isRequired
                                  propertyType, [], []), usedProperties', st1))))
           else if type s = Some ''object'' \<or> properties s \<noteq> None then
             (let (nestedClassName, st1) = getClassNameFromSchemaName (propertyName @ ''Object'') st
              in
              if properties s \<noteq> None then
                (case generateClassProperties_rec s [] doc context st1 of
                   None \<Rightarrow> None
                 | Some ((props, nested, ens), st2) \<Rightarrow>
                     (if length props > 0 then
                        (let nestedClass = class_text nestedClassName [] props;
                             st3 = st2\<lparr>classMap :=
                                     map_set (classMap st2) propertyName nestedClassName\<rparr>;
                             decorators1 = replace_placeholder decorators nestedClassName
                         in Some ((property_text decorators1 formattedPropertyName isRequired
                                     nestedClassName,
                                   nested @ [nestedClass], ens), usedProperties', st3))
                      else
                        Some ((property_text (remove_nested_decorators decorators)
                                 formattedPropertyName isRequired ''Record<string, any>'', [], []),
                              usedProperties', st2)))
              else
                Some ((property_text (remove_nested_decorators decorators)
                         formattedPropertyName isRequired ''Record<string, any>'', [], []),
                      usedProperties', st1))
           else
             Some ((property_text decorators formattedPropertyName isRequired ''any'', [], []),
                   usedProperties', st)))"

text \<open>The loop over \<open>Object.entries(mergedProperties)\<close> in \<open>generateClassProperties\<close>.\<close>

fun properties_loop ::
  "property_fun \<Rightarrow> (string \<times> schema) list \<Rightarrow> string list \<Rightarrow> document \<Rightarrow> string list \<Rightarrow> string
     \<Rightarrow> properties_result \<Rightarrow> gen_state \<Rightarrow> (properties_result \<times> gen_state) option" where
  "properties_loop generateClassProperty_rec [] requiredNames doc usedProperties context acc st =
     Some (acc, st)"
| "properties_loop generateClassProperty_rec ((propertyName, propertySchema) # rest) requiredNames
       doc usedProperties context (props, nested, ens) st =
     (case generateClassProperty_rec propertyName propertySchema requiredNames doc usedProperties
             context st of
        None \<Rightarrow> None
      | Some ((property, propNestedClasses, propEnums), usedProperties', st') \<Rightarrow>
          properties_loop generateClassProperty_rec rest requiredNames doc usedProperties' context
            (props @ [property], nested @ propNestedClasses, ens @ propEnums) st')"

text \<open>
  \<open>mergedRequired || required\<close> is \<open>mergedRequired\<close>, an array being truthy even when empty,
  so the parameter \<open>required\<close> is never read.
\<close>

primrec generateClassProperties :: "nat \<Rightarrow> properties_fun" where
  "generateClassProperties 0 s requiredNames doc context st = None"
| "generateClassProperties (Suc k) s requiredNames doc context st =
     (case mergeParentProperties (Suc k) s doc of
        None \<Rightarrow> None
      | Some (mergedProperties, mergedRequired) \<Rightarrow>
          properties_loop (generateClassProperty_body (generateClassProperties k))
            mergedProperties mergedRequired doc [] context ([], [], []) st)"


section \<open>Assembly\<close>

text \<open>
  The arrays \<open>generatedEnums\<close>, \<open>baseClasses\<close> and \<open>childClasses\<close> of
  \<open>generateClassesFromOpenAPI\<close>, and its set \<open>processedSchemas\<close>.
\<close>

record emitted =
  generatedEnums :: "string list"
  baseClasses :: "string list"
  childClasses :: "string list"
  processedSchemas :: "string list"

text \<open>
  \<open>nestedClasses.forEach\<close>: a nested class goes to \<open>childClasses\<close> when its text contains
  \<open>extends\<close> between spaces, to \<open>baseClasses\<close> otherwise.
\<close>

definition push_nested :: "emitted \<Rightarrow> string list \<Rightarrow> emitted" where
  "push_nested em nested =
     foldl (\<lambda>e nestedClass.
              if includes_str nestedClass '' extends ''
              then e\<lparr>childClasses := childClasses e @ [nestedClass]\<rparr>
              else e\<lparr>baseClasses := baseClasses e @ [nestedClass]\<rparr>) em nested"

definition push_class :: "emitted \<Rightarrow> string \<Rightarrow> string \<Rightarrow> emitted" where
  "push_class em extendsClause classDefinition =
     (if extendsClause \<noteq> []
      then em\<lparr>childClasses := childClasses em @ [classDefinition]\<rparr>
      else em\<lparr>baseClasses := baseClasses em @ [classDefinition]\<rparr>)"

text \<open>
  The loop \<open>for (let i = 1; i < parents.length; i++)\<close> over the additional parents of a
  schema; \<open>intermediateProps\<close> is the set of property texts already given to an
  intermediate class.
\<close>

fun intermediate_classes ::
  "nat \<Rightarrow> string list \<Rightarrow> string \<Rightarrow> document \<Rightarrow> string list \<Rightarrow> emitted \<Rightarrow> gen_state
     \<Rightarrow> (emitted \<times> gen_state) option" where
  "intermediate_classes k [] className doc intermediateProps em st = Some (em, st)"
| "intermediate_classes k (parentName # rest) className doc intermediateProps em st =
     (case lookup_schema doc parentName of
        None \<Rightarrow> intermediate_classes k rest className doc intermediateProps em st
      | Some parentSchema \<Rightarrow>
          (let (parentClassName, st1) = getClassNameFromSchemaName parentName st;
               intermediateClassName = className @ ''With'' @ parentClassName
           in
           case generateClassProperties k parentSchema [] doc parentName st1 of
             None \<Rightarrow> None
           | Some ((parentProps, nested, ens), st2) \<Rightarrow>
               (let uniqueProps = filter (\<lambda>prop. prop \<notin> set intermediateProps) parentProps;
                    intermediateProps' = foldl set_add intermediateProps uniqueProps;
                    em' = (if length uniqueProps > 0
                           then em\<lparr>baseClasses :=
                                    baseClasses em @ [class_text intermediateClassName [] uniqueProps]\<rparr>
                           else em)
                in intermediate_classes k rest className doc intermediateProps' em' st2)))"

text \<open>The \<open>extends\<close> clause of a component schema, with the classes of its further parents.\<close>

definition schema_extends ::
  "nat \<Rightarrow> schema \<Rightarrow> string \<Rightarrow> document \<Rightarrow> emitted \<Rightarrow> gen_state
     \<Rightarrow> (string \<times> emitted \<times> gen_state) option" where
  "schema_extends k s className doc em st =
     (if allOf s \<noteq> None then
        (case getAllParentClasses k s doc of
           None \<Rightarrow> None
         | Some [] \<Rightarrow> Some ([], em, st)
         | Some (primaryParent # additional) \<Rightarrow>
             (let (primaryParentClassName, st1) = getClassNameFromSchemaName primaryParent st;
                  extendsClause = '' extends '' @ primaryParentClassName
              in
              case intermediate_classes k additional className doc [] em st1 of
                None \<Rightarrow> None
              | Some (em', st2) \<Rightarrow> Some (extendsClause, em', st2)))
      else Some ([], em, st))"

text \<open>One round of the loop \<open>for (const schemaName of sortedSchemas)\<close>.\<close>

definition process_schema ::
  "nat \<Rightarrow> document \<Rightarrow> string \<Rightarrow> emitted \<times> gen_state \<Rightarrow> (emitted \<times> gen_state) option" where
  "process_schema k doc schemaName es =
     (case es of (em, st) \<Rightarrow>
        (case lookup_schema doc schemaName of
           None \<Rightarrow> Some (em, st)
         | Some s \<Rightarrow>
             (if schemaName \<in> set (processedSchemas em) then Some (em, st)
              else
                (let (className, st1) = getClassNameFromSchemaName schemaName st in
                 case generateClassProperties k s [] doc schemaName st1 of
                   None \<Rightarrow> None
                 | Some ((props, nested, ens), st2) \<Rightarrow>
                     (if length props = 0 then Some (em, st2)
                      else
                        (let em1 = em\<lparr>generatedEnums := generatedEnums em @ ens\<rparr> in
                         case schema_extends k s className doc em1 st2 of
                           None \<Rightarrow> None
                         | Some (extendsClause, em2, st3) \<Rightarrow>
                             (let classDefinition = class_text className extendsClause props;
                                  em3 = push_nested em2 nested;
                                  em4 = push_class em3 extendsClause classDefinition
                              in Some (em4\<lparr>processedSchemas :=
                                              set_add (processedSchemas em4) schemaName\<rparr>,
                                       st3))))))))"

text \<open>A loop that stops as soon as a round does not return.\<close>

fun for_each :: "('a \<Rightarrow> 's \<Rightarrow> 's option) \<Rightarrow> 'a list \<Rightarrow> 's \<Rightarrow> 's option" where
  "for_each f [] s = Some s"
| "for_each f (x # xs) s = (case f x s of None \<Rightarrow> None | Some s' \<Rightarrow> for_each f xs s')"

text \<open>
  The \<open>extends\<close> clause of a response class: the first member of \<open>allOf\<close> that is a
  reference into the schemas, or else the schema's own reference.
\<close>

definition response_extends :: "schema \<Rightarrow> gen_state \<Rightarrow> string \<times> gen_state" where
  "response_extends s st =
     (case allOf s of
        Some subs \<Rightarrow>
          (case find (\<lambda>sub. truthy (ref sub) \<and> startsWith (the (ref sub)) schemas_prefix) subs of
             None \<Rightarrow> ([], st)
           | Some sub \<Rightarrow>
               (let parentName = replace_first (the (ref sub)) schemas_prefix [];
                    (parentClassName, st1) = getClassNameFromSchemaName parentName st
                in ('' extends '' @ parentClassName, st1)))
      | None \<Rightarrow>
          (if truthy (ref s) \<and> startsWith (the (ref s)) schemas_prefix
           then
             (let parentName = replace_first (the (ref s)) schemas_prefix [];
                  (parentClassName, st1) = getClassNameFromSchemaName parentName st
              in ('' extends '' @ parentClassName, st1))
           else ([], st)))"

text \<open>One round of the loop over the content types of a response.\<close>

definition process_content ::
  "nat \<Rightarrow> document \<Rightarrow> string \<Rightarrow> string \<Rightarrow> string \<times> schema option \<Rightarrow> emitted \<times> gen_state
     \<Rightarrow> (emitted \<times> gen_state) option" where
  "process_content k doc opId statusCode entry es =
     (case es of (em, st) \<Rightarrow>
        (case snd entry of
           None \<Rightarrow> Some (em, st)
         | Some s \<Rightarrow>
             (let (className, st1) = getClassNameFromOperationId opId statusCode st in
              case generateClassProperties k s [] doc opId st1 of
                None \<Rightarrow> None
              | Some ((props, nested, ens), st2) \<Rightarrow>
                  (if length props = 0 then Some (em, st2)
                   else
                     (let em1 = em\<lparr>generatedEnums := generatedEnums em @ ens\<rparr>;
                          (extendsClause, st3) = response_extends s st2;
                          classDefinition = class_text className extendsClause props;
                          em2 = push_nested em1 nested;
                          em3 = push_class em2 extendsClause classDefinition
                      in Some (em3, st3))))))"

text \<open>One round of the loop over the responses of an operation.\<close>

definition process_response ::
  "nat \<Rightarrow> document \<Rightarrow> string \<Rightarrow> string \<times> response \<Rightarrow> emitted \<times> gen_state
     \<Rightarrow> (emitted \<times> gen_state) option" where
  "process_response k doc opId sr es =
     (case sr of (statusCode, operationResponse) \<Rightarrow>
        (if \<not> startsWith statusCode ''2'' then Some es
         else
           (case content operationResponse of
              None \<Rightarrow> Some es
            | Some contents \<Rightarrow> for_each (process_content k doc opId statusCode) contents es)))"

text \<open>One round of the loop over the operations of a path.\<close>

definition process_operation ::
  "nat \<Rightarrow> document \<Rightarrow> string \<times> operation \<Rightarrow> emitted \<times> gen_state
     \<Rightarrow> (emitted \<times> gen_state) option" where
  "process_operation k doc mo es =
     (case mo of (method, op) \<Rightarrow>
        (if \<not> truthy (operationId op) then Some es
         else for_each (process_response k doc (the (operationId op))) (responses op) es))"

definition process_path ::
  "nat \<Rightarrow> document \<Rightarrow> string \<times> (string \<times> operation) list \<Rightarrow> emitted \<times> gen_state
     \<Rightarrow> (emitted \<times> gen_state) option" where
  "process_path k doc pp es = for_each (process_operation k doc) (snd pp) es"

definition import_header :: string where
  "import_header =
     ''import {\<newline>  IsString,\<newline>  IsNumber,\<newline>  IsBoolean,\<newline>  IsDate,\<newline>  IsArray,\<newline>  IsObject,\<newline>  ValidateNested,\<newline>  IsOptional,\<newline>  IsEnum,\<newline>  Min,\<newline>  Max,\<newline>  MinLength,\<newline>  MaxLength,\<newline>  Matches,\<newline>  IsEmail,\<newline>  IsUrl,\<newline>  IsIP,\<newline>  IsUUID,\<newline>  IsLatitude,\<newline>  IsLongitude,\<newline>  IsCreditCard,\<newline>  IsPhoneNumber,\<newline>  IsPostalCode,\<newline>  IsMongoId,\<newline>  IsInt,\<newline>  IsPositive,\<newline>  IsNegative,\<newline>} from ''
     @ quote ''class-validator'' @ '';\<newline>import { Type, Transform } from ''
     @ quote ''class-transformer'' @ '';\<newline>\<newline>''"

text \<open>
  The result of the core of \<open>generateClassesFromOpenAPI\<close>: the three arrays with their
  duplicates removed, as they are joined into the output text, and the final state of the run.
\<close>

record generated =
  enums_out :: "string list"
  base_out :: "string list"
  child_out :: "string list"
  final_state :: gen_state

definition output_text :: "generated \<Rightarrow> string" where
  "output_text g =
     import_header @ join ''\<newline>\<newline>'' (enums_out g) @ ''\<newline>\<newline>''
       @ join ''\<newline>'' (base_out g) @ ''\<newline>\<newline>'' @ join ''\<newline>'' (child_out g)"

text \<open>
  \<open>generateClassesFromOpenAPI\<close> between the parsing of the file and the writing of the
  output: it takes the parsed document with the store of its enumeration arrays and the
  sequence of random tokens. The bound \<open>k\<close> limits the depth of every recursion of the run.
  A run starts with \<open>schemaToClassName\<close> cleared and with new, empty sets and maps.
\<close>

definition initial_state :: "store \<Rightarrow> (nat \<Rightarrow> string) \<Rightarrow> gen_state" where
  "initial_state h tokens =
     \<lparr>schemaToClassName = [], usedNames = [], usedEnums = [], classMap = [],
      store = h, random_tokens = tokens, random_calls = 0\<rparr>"

definition generateClassesFromOpenAPI ::
  "nat \<Rightarrow> document \<Rightarrow> store \<Rightarrow> (nat \<Rightarrow> string) \<Rightarrow> generated option" where
  "generateClassesFromOpenAPI k doc h tokens =
     (let st0 = initial_state h tokens;
          em0 = \<lparr>generatedEnums =
                   map (\<lambda>(enumName, enumValues). toplevel_enum_definition enumName (h enumValues))
                     (getEnums h doc),
                 baseClasses = [], childClasses = [], processedSchemas = []\<rparr>
      in
      case sortSchemasByDependency k (buildSchemaDependencyGraph doc) of
        None \<Rightarrow> None
      | Some sortedSchemas \<Rightarrow>
          (case (if schemas doc \<noteq> None
                 then for_each (process_schema k doc) sortedSchemas (em0, st0)
                 else Some (em0, st0)) of
             None \<Rightarrow> None
           | Some es1 \<Rightarrow>
               (case for_each (process_path k doc) (paths doc) es1 of
                  None \<Rightarrow> None
                | Some (em, st) \<Rightarrow>
                    Some \<lparr>enums_out = new_Set (generatedEnums em),
                          base_out = new_Set (baseClasses em),
                          child_out = new_Set (childClasses em),
                          final_state = st\<rparr>)))"

section \<open>Example documents\<close>

text \<open>Shorthands for the schemas of the example documents.\<close>

definition empty_schema :: schema where
  "empty_schema = Schema None None None None None None None None None None None None None None"

definition prim :: "string \<Rightarrow> schema" where
  "prim t = Schema (Some t) None None None None None None None None None None None None None"

definition obj :: "(string \<times> schema) list \<Rightarrow> string list option \<Rightarrow> schema" where
  "obj ps rq = Schema (Some ''object'') None None None None None None None (Some ps) None rq None None None"

definition refto :: "string \<Rightarrow> schema" where
  "refto r = Schema None None None None None None None None None None None None (Some r) None"

definition allof :: "schema list \<Rightarrow> schema" where
  "allof ss = Schema None None None None None None None None None None None (Some ss) None None"

definition str_enum :: "nat \<Rightarrow> schema" where
  "str_enum a = Schema (Some ''string'') None (Some a) None None None None None None None None None None None"

text \<open>Scenario A: one schema \<open>Pet\<close> with an integer \<open>id\<close> and a required string \<open>name\<close>.\<close>

definition docA :: document where
  "docA =
     \<lparr>paths = [],
      schemas = Some
        [(''Pet'', obj [(''id'', prim ''integer''), (''name'', prim ''string'')] (Some [''name'']))]\<rparr>"

text \<open>
  Scenario B: \<open>Dog\<close> is \<open>allOf\<close> a reference to \<open>Pet\<close> and an object with its own string
  property \<open>breed\<close>.
\<close>

definition docB :: document where
  "docB =
     \<lparr>paths = [],
      schemas = Some
        [(''Pet'', obj [(''id'', prim ''integer''), (''name'', prim ''string'')] (Some [''name''])),
         (''Dog'', allof [refto ''#/components/schemas/Pet'',
                          obj [(''breed'', prim ''string'')] None])]\<rparr>"

text \<open>
  Scenario C: the operation \<open>getPet\<close> answers 200 with an object whose property \<open>status\<close> is
  an inline string enumeration, and a second response has the same enumeration under the
  property \<open>state\<close>. The status code of the second response is the parameter. The arrays of
  the two enumerations are at the addresses 0 and 1 of the store.
\<close>

definition docC :: "string \<Rightarrow> document" where
  "docC secondStatus =
     \<lparr>paths =
        [(''/pet'',
          [(''get'',
            \<lparr>operationId = Some ''getPet'',
             responses =
               [(''200'', \<lparr>content = Some [(''application/json'',
                                               Some (obj [(''status'', str_enum 0)] None))]\<rparr>),
                (secondStatus, \<lparr>content = Some [(''application/json'',
                                                     Some (obj [(''state'', str_enum 1)] None))]\<rparr>)]\<rparr>)])],
      schemas = None\<rparr>"

definition empty_store :: store where
  "empty_store = (\<lambda>a. [])"

definition no_tokens :: "nat \<Rightarrow> string" where
  "no_tokens = (\<lambda>n. ''000000'')"

definition heapC :: store where
  "heapC = (\<lambda>a. [])(0 := [EStr ''available'', EStr ''sold''],
                       1 := [EStr ''available'', EStr ''sold''])"

text \<open>
  A document whose schema \<open>Order\<close> has a string property \<open>status\<close> with the enumeration
  \<open>["sold", "available"]\<close>, stored at the address 0.
\<close>

definition docD :: document where
  "docD = \<lparr>paths = [], schemas = Some [(''Order'', obj [(''status'', str_enum 0)] None)]\<rparr>"

definition heapD :: store where
  "heapD = (\<lambda>a. [])(0 := [EStr ''sold'', EStr ''available''])"



text \<open>A store with the arrays \<open>["A", "B"]\<close> and \<open>["B", "A"]\<close>.\<close>

definition heapAB :: store where
  "heapAB = (\<lambda>a. [])(0 := [EStr ''A'', EStr ''B''], 1 := [EStr ''B'', EStr ''A''])"

text \<open>
  A document whose schemas \<open>A\<close> and \<open>B\<close> reference each other, while \<open>B\<close> also
  references \<open>D\<close>, a schema without references.
\<close>

definition doc_cycle :: document where
  "doc_cycle =
     \<lparr>paths = [],
      schemas = Some
        [(''A'', obj [(''b'', refto ''#/components/schemas/B'')] None),
         (''B'', obj [(''a'', refto ''#/components/schemas/A''),
                      (''d'', refto ''#/components/schemas/D'')] None),
         (''D'', obj [(''x'', prim ''string'')] None)]\<rparr>"

text \<open>A document whose only schema \<open>A\<close> references a schema \<open>X\<close> that is not declared.\<close>

definition doc_dangling :: document where
  "doc_dangling =
     \<lparr>paths = [],
      schemas = Some [(''A'', obj [(''x'', refto ''#/components/schemas/X'')] None)]\<rparr>"

text \<open>The part of a result that is written to the output file.\<close>

definition result_classes ::
  "generated option \<Rightarrow> (string list \<times> string list \<times> string list) option" where
  "result_classes r = map_option (\<lambda>g. (enums_out g, base_out g, child_out g)) r"

section \<open>Allocation requests\<close>

text \<open>
  The three allocators seen as one interface: a request names the semantic key, and a run
  of requests returns the log of the requests with the names they were given.
\<close>

datatype request =
  SchemaName string
  | OperationResponse string string
  | EnumValues string array_ref string

fun allocate :: "request \<Rightarrow> gen_state \<Rightarrow> string \<times> gen_state" where
  "allocate (SchemaName schemaName) st = getClassNameFromSchemaName schemaName st"
| "allocate (OperationResponse opId statusCode) st = getClassNameFromOperationId opId statusCode st"
| "allocate (EnumValues propertyName enumValues context) st =
     getEnumNameFromProperty propertyName enumValues context st"

fun allocate_all :: "request list \<Rightarrow> gen_state \<Rightarrow> (request \<times> string) list \<times> gen_state" where
  "allocate_all [] st = ([], st)"
| "allocate_all (r # rs) st =
     (case allocate r st of
        (name, st1) \<Rightarrow> (case allocate_all rs st1 of (log, st2) \<Rightarrow> ((r, name) # log, st2)))"

text \<open>An example run of requests against the store with \<open>["A", "B"]\<close> and \<open>["B", "A"]\<close>.\<close>

definition example_requests :: "request list" where
  "example_requests =
     [SchemaName ''Pet'', OperationResponse ''getPet'' ''200'', SchemaName ''Pet'',
      SchemaName ''Dog'', OperationResponse ''getPet'' ''200'',
      EnumValues ''kind'' 0 ''Order'', EnumValues ''category'' 1 ''Item'']"


definition is_operation :: "request \<times> string \<Rightarrow> bool" where
  "is_operation rn = (case fst rn of OperationResponse opId statusCode \<Rightarrow> True | _ \<Rightarrow> False)"

text \<open>
  The relation between the log of a run and its registries that every allocation keeps:
  a logged schema name is cached with its class name, the cache is injective and holds only
  names in use, the names given to operation responses are pairwise distinct, in use and
  not cached, a logged enumeration has a registry entry with the same sorted values, the
  registry has one entry per name and per sorted value list, and every array of the store
  is, up to sorting, the array of the initial store \<open>h\<close>.
\<close>

definition registry_inv :: "store \<Rightarrow> (request \<times> string) list \<Rightarrow> gen_state \<Rightarrow> bool" where
  "registry_inv h log st =
     ((\<forall>a n. (SchemaName a, n) \<in> set log \<longrightarrow> map_of (schemaToClassName st) a = Some n)
      \<and> (\<forall>a b n. map_of (schemaToClassName st) a = Some n
             \<and> map_of (schemaToClassName st) b = Some n \<longrightarrow> a = b)
      \<and> (\<forall>a n. map_of (schemaToClassName st) a = Some n \<longrightarrow> n \<in> set (usedNames st))
      \<and> distinct (map snd (filter is_operation log))
      \<and> (\<forall>rn \<in> set log. is_operation rn \<longrightarrow>
             snd rn \<in> set (usedNames st)
             \<and> (\<forall>a. map_of (schemaToClassName st) a \<noteq> Some (snd rn)))
      \<and> (\<forall>p a c n. (EnumValues p a c, n) \<in> set log \<longrightarrow>
             (\<exists>x. (n, x) \<in> set (usedEnums st) \<and> js_sort (h x) = js_sort (h a)))
      \<and> distinct (map fst (usedEnums st))
      \<and> distinct (map (\<lambda>e. js_sort (h (snd e))) (usedEnums st))
      \<and> (\<forall>x. js_sort (store st x) = js_sort (h x)))"

section \<open>The first pass\<close>

lemma graph_get_nonkey:
  assumes "n \<notin> set (graph_keys g)"
  shows "graph_get g n = []"
proof -
  from assms have "map_of g n = None"
    by (simp add: graph_keys_def map_of_eq_None_iff)
  then show ?thesis by (simp add: graph_get_def)
qed

lemma graph_get_nodes: "set (graph_get g n) \<subseteq> graph_nodes g"
proof (cases "n \<in> set (graph_keys g)")
  case True
  then show ?thesis by (auto simp: graph_nodes_def node_list_def)
next
  case False
  then show ?thesis by (simp add: graph_get_nonkey)
qed

lemma keys_nodes: "set (graph_keys g) \<subseteq> graph_nodes g"
  by (simp add: graph_nodes_def node_list_def)

lemma finite_graph_nodes: "finite (graph_nodes g)"
  by (simp add: graph_nodes_def)

lemma card_graph_nodes: "card (graph_nodes g) \<le> length (node_list g)"
  by (simp add: graph_nodes_def card_length)

lemma topo_ok_mono: "topo_ok g c L \<Longrightarrow> c \<subseteq> c' \<Longrightarrow> topo_ok g c' L"
  by (induction L) (auto simp: list_all_iff)

lemma visit_deps_from_visit:
  assumes visit_ok: "\<And>n path s. visit_inv g s \<Longrightarrow> visiting s = path \<Longrightarrow> n \<in> graph_nodes g \<Longrightarrow>
      card (graph_nodes g - visited s - visiting s) < k \<Longrightarrow>
      \<exists>s'. visit k g n path s = Some s' \<and> visit_post g n path s s'"
  shows "visit_inv g s \<Longrightarrow> visiting s = path \<Longrightarrow> set ds \<subseteq> graph_nodes g \<Longrightarrow>
      card (graph_nodes g - visited s - visiting s) < k \<Longrightarrow>
      \<exists>s'. visit_deps k g ds path s = Some s' \<and> deps_post g ds path s s'"
proof (induction ds arbitrary: s)
  case Nil
  then show ?case by (simp add: deps_post_def)
next
  case (Cons d ds)
  show ?case
  proof (cases "d \<in> visited s")
    case True
    from Cons.IH [OF Cons.prems(1,2) _ Cons.prems(4)] Cons.prems(3)
    obtain s' where rest: "visit_deps k g ds path s = Some s'" "deps_post g ds path s s'"
      by auto
    with True show ?thesis
      by (auto simp: deps_post_def)
  next
    case False
    from visit_ok [OF Cons.prems(1,2) _ Cons.prems(4), of d] Cons.prems(3)
    obtain s1 where first: "visit k g d path s = Some s1" "visit_post g d path s s1"
      by auto
    from first(2) have inv1: "visit_inv g s1" and vis1: "visiting s1 = path"
      and grow: "visited s \<subseteq> visited s1"
      using Cons.prems(2) by (simp_all add: visit_post_def)
    have "graph_nodes g - visited s1 - visiting s1 \<subseteq> graph_nodes g - visited s - visiting s"
      using grow vis1 Cons.prems(2) by auto
    then have "card (graph_nodes g - visited s1 - visiting s1)
        \<le> card (graph_nodes g - visited s - visiting s)"
      by (intro card_mono) (simp_all add: finite_graph_nodes)
    with Cons.prems(4) have small: "card (graph_nodes g - visited s1 - visiting s1) < k"
      by simp
    from Cons.IH [OF inv1 vis1 _ small] Cons.prems(3)
    obtain s' where rest: "visit_deps k g ds path s1 = Some s'" "deps_post g ds path s1 s'"
      by auto
    from first(2) rest(2) have "deps_post g (d # ds) path s s'"
      by (auto simp: deps_post_def visit_post_def)
    with False first(1) rest(1) show ?thesis by simp
  qed
qed

lemma visit_step:
  assumes deps_ok: "\<And>ds path s. visit_inv g s \<Longrightarrow> visiting s = path \<Longrightarrow>
      set ds \<subseteq> graph_nodes g \<Longrightarrow> card (graph_nodes g - visited s - visiting s) < k \<Longrightarrow>
      \<exists>s'. visit_deps k g ds path s = Some s' \<and> deps_post g ds path s s'"
    and inv: "visit_inv g s" and path: "visiting s = path" and node: "n \<in> graph_nodes g"
    and small: "card (graph_nodes g - visited s - visiting s) < Suc k"
  shows "\<exists>s'. visit (Suc k) g n path s = Some s' \<and> visit_post g n path s s'"
proof (cases "n \<in> visited s")
  case True
  with inv show ?thesis by (simp add: visit_post_def)
next
  case unvisited: False
  show ?thesis
  proof (cases "n \<in> visiting s")
    case True
    have "visit_inv g (s\<lparr>cycles := cycles s \<union> path\<rparr>)"
      using inv path by (auto simp: visit_inv_def intro: topo_ok_mono)
    with True unvisited path show ?thesis
      by (auto simp: visit_post_def)
  next
    case False
    let ?s1 = "s\<lparr>visiting := insert n (visiting s)\<rparr>"
    have inv1: "visit_inv g ?s1"
      using inv unvisited node by (auto simp: visit_inv_def)
    have path1: "visiting ?s1 = insert n path" using path by simp
    have "n \<in> graph_nodes g - visited s - visiting s"
      using node unvisited False by simp
    then have "card ((graph_nodes g - visited s - visiting s) - {n})
        < card (graph_nodes g - visited s - visiting s)"
      by (intro card_Diff1_less) (simp_all add: finite_graph_nodes)
    moreover have "graph_nodes g - visited ?s1 - visiting ?s1 =
        (graph_nodes g - visited s - visiting s) - {n}"
      by auto
    ultimately have "card (graph_nodes g - visited ?s1 - visiting ?s1) < k"
      using small by simp
    from deps_ok [OF inv1 path1 graph_get_nodes this]
    obtain s2 where loop: "visit_deps k g (graph_get g n) (insert n path) ?s1 = Some s2"
      and post: "deps_post g (graph_get g n) (insert n path) ?s1 s2"
      by blast
    let ?s' = "s2\<lparr>visiting := visiting s2 - {n}, visited := insert n (visited s2),
        sorted_nodes := n # sorted_nodes s2\<rparr>"
    from post have inv2: "visit_inv g s2" and vis2: "visiting s2 = insert n (visiting s)"
      and grow: "visited s \<subseteq> visited s2" and cyc: "cycles s \<subseteq> cycles s2"
      and deps: "list_all (\<lambda>d. d \<in> visited s2 \<or> (d \<in> insert n path \<and> insert n path \<subseteq> cycles s2))
          (graph_get g n)"
      by (simp_all add: deps_post_def)
    from inv2 vis2 have fresh: "n \<notin> visited s2"
      by (auto simp: visit_inv_def)
    have head: "list_all (\<lambda>d. d \<in> set (sorted_nodes s2) \<or> (n \<in> cycles s2 \<and> d \<in> cycles s2))
        (graph_get g n)"
      using deps inv2 by (auto simp: list_all_iff visit_inv_def)
    have "visit_inv g ?s'"
      using inv2 vis2 fresh head node False by (auto simp: visit_inv_def)
    moreover have "visiting ?s' = visiting s" using vis2 False by auto
    ultimately have "visit_post g n path s ?s'"
      using grow cyc by (auto simp: visit_post_def)
    moreover have "visit (Suc k) g n path s = Some ?s'"
      using unvisited False loop by simp
    ultimately show ?thesis by blast
  qed
qed

lemma visit_total:
  "visit_inv g s \<Longrightarrow> visiting s = path \<Longrightarrow> n \<in> graph_nodes g \<Longrightarrow>
   card (graph_nodes g - visited s - visiting s) < k \<Longrightarrow>
   \<exists>s'. visit k g n path s = Some s' \<and> visit_post g n path s s'"
proof (induction k arbitrary: s path n)
  case 0
  then show ?case by simp
next
  case (Suc k)
  have "\<And>ds path s. visit_inv g s \<Longrightarrow> visiting s = path \<Longrightarrow>
      set ds \<subseteq> graph_nodes g \<Longrightarrow> card (graph_nodes g - visited s - visiting s) < k \<Longrightarrow>
      \<exists>s'. visit_deps k g ds path s = Some s' \<and> deps_post g ds path s s'"
    by (rule visit_deps_from_visit) (rule Suc.IH)
  then show ?case
    using Suc.prems by (rule visit_step)
qed

lemma first_pass_total:
  "visit_inv g s \<Longrightarrow> visiting s = {} \<Longrightarrow> set ns \<subseteq> graph_nodes g \<Longrightarrow>
   card (graph_nodes g) < k \<Longrightarrow>
   \<exists>s'. first_pass k g ns s = Some s' \<and> visit_inv g s' \<and> visiting s' = {}
        \<and> visited s \<union> set ns \<subseteq> visited s'"
proof (induction ns arbitrary: s)
  case Nil
  then show ?case by simp
next
  case (Cons n ns)
  show ?case
  proof (cases "n \<in> visited s")
    case True
    from Cons.IH [OF Cons.prems(1,2) _ Cons.prems(4)] Cons.prems(3) True
    show ?thesis by auto
  next
    case False
    have "card (graph_nodes g - visited s - visiting s) \<le> card (graph_nodes g)"
      by (intro card_mono) (auto simp: finite_graph_nodes)
    with Cons.prems(4) have "card (graph_nodes g - visited s - visiting s) < k" by simp
    from visit_total [OF Cons.prems(1,2) _ this, of n] Cons.prems(3)
    obtain s1 where first: "visit k g n {} s = Some s1" "visit_post g n {} s s1"
      by auto
    from first(2) Cons.prems(2) have inv1: "visit_inv g s1" and vis1: "visiting s1 = {}"
      and grow: "visited s \<subseteq> visited s1" and finished: "n \<in> visited s1"
      by (auto simp: visit_post_def)
    from Cons.IH [OF inv1 vis1 _ Cons.prems(4)] Cons.prems(3)
    obtain s' where "first_pass k g ns s1 = Some s'" "visit_inv g s'" "visiting s' = {}"
      "visited s1 \<union> set ns \<subseteq> visited s'"
      by auto
    with False first(1) grow finished show ?thesis by auto
  qed
qed

section \<open>The second pass\<close>

lemma rank_in_le: "rank_in L u \<le> length L"
  by (simp add: rank_in_def length_dropWhile_le)

lemma rank_in_Cons: "rank_in (x # ys) u = (if x = u then Suc (length ys) else rank_in ys u)"
  by (simp add: rank_in_def)

lemma rank_in_pos: "u \<in> set L \<Longrightarrow> 0 < rank_in L u"
  by (induction L) (auto simp: rank_in_Cons)

text \<open>
  An edge whose ends are not both marked leads to a node finished earlier, which stands
  further behind in the list.
\<close>

lemma rank_edge:
  "distinct L \<Longrightarrow> topo_ok g c L \<Longrightarrow> u \<in> set L \<Longrightarrow> d \<in> set (graph_get g u) \<Longrightarrow>
   \<not> (u \<in> c \<and> d \<in> c) \<Longrightarrow> d \<in> set L \<and> rank_in L d < rank_in L u"
proof (induction L)
  case Nil
  then show ?case by simp
next
  case (Cons x ys)
  show ?case
  proof (cases "x = u")
    case True
    with Cons.prems have behind: "d \<in> set ys"
      by (auto simp: list_all_iff)
    with Cons.prems(1) have "d \<noteq> x" by auto
    then have "rank_in (x # ys) d = rank_in ys d" by (simp add: rank_in_Cons)
    also have "\<dots> \<le> length ys" by (rule rank_in_le)
    finally show ?thesis using True behind by (simp add: rank_in_Cons)
  next
    case False
    with Cons.prems have "u \<in> set ys" "distinct ys" "topo_ok g c ys" by auto
    from Cons.IH [OF this(2,3,1) Cons.prems(4,5)]
    have inner: "d \<in> set ys" "rank_in ys d < rank_in ys u" by simp_all
    with Cons.prems(1) have "d \<noteq> x" by auto
    with False inner show ?thesis by (simp add: rank_in_Cons)
  qed
qed

lemma push_cyclic_spec:
  "process_inv D L p \<Longrightarrow> set ds \<subseteq> set L \<Longrightarrow>
   process_inv D L (push_cyclic cyc ds p)
   \<and> processed p \<subseteq> processed (push_cyclic cyc ds p)
   \<and> processed (push_cyclic cyc ds p) \<subseteq> processed p \<union> (set ds \<inter> cyc)"
proof (induction ds arbitrary: p)
  case Nil
  then show ?case by simp
next
  case (Cons d ds)
  show ?case
  proof (cases "d \<in> cyc \<and> d \<notin> processed p")
    case True
    let ?p1 = "p\<lparr>finalSorted := finalSorted p @ [d], processed := insert d (processed p)\<rparr>"
    have "process_inv D L ?p1"
      using Cons.prems True by (auto simp: process_inv_def)
    from Cons.IH [OF this] Cons.prems(2) True show ?thesis by auto
  next
    case False
    from Cons.IH [OF Cons.prems(1)] Cons.prems(2) False show ?thesis by auto
  qed
qed

lemma process_noncyclic_from_node:
  assumes node_ok: "\<And>u p. process_inv D L p \<Longrightarrow> u \<in> set L \<Longrightarrow> u \<notin> cyc \<Longrightarrow>
      rank_in L u \<le> k \<Longrightarrow>
      \<exists>p'. processNode k g cyc u p = Some p' \<and> process_inv D L p'
        \<and> processed p \<subseteq> processed p' \<and> u \<in> processed p'
        \<and> (\<forall>x \<in> processed p'. x \<in> processed p \<or> rank_in L x \<le> rank_in L u)"
  shows "process_inv D L p \<Longrightarrow> set ds \<subseteq> set L \<Longrightarrow>
      (\<forall>e \<in> set ds. e \<notin> cyc \<longrightarrow> rank_in L e \<le> k) \<Longrightarrow>
      \<exists>p'. process_noncyclic k g cyc ds p = Some p' \<and> process_inv D L p'
        \<and> processed p \<subseteq> processed p'
        \<and> (\<forall>x \<in> processed p'. x \<in> processed p
              \<or> (\<exists>e \<in> set ds. e \<notin> cyc \<and> rank_in L x \<le> rank_in L e))"
proof (induction ds arbitrary: p)
  case Nil
  then show ?case by simp
next
  case (Cons d ds)
  show ?case
  proof (cases "d \<in> cyc")
    case True
    from Cons.IH [OF Cons.prems(1)] Cons.prems(2,3)
    obtain p' where "process_noncyclic k g cyc ds p = Some p'" "process_inv D L p'"
      "processed p \<subseteq> processed p'"
      "\<forall>x \<in> processed p'. x \<in> processed p
          \<or> (\<exists>e \<in> set ds. e \<notin> cyc \<and> rank_in L x \<le> rank_in L e)"
      by auto
    with True show ?thesis by auto
  next
    case False
    from Cons.prems(2,3) False have "d \<in> set L" "rank_in L d \<le> k" by auto
    from node_ok [OF Cons.prems(1) this(1) False this(2)]
    obtain p1 where first: "processNode k g cyc d p = Some p1" "process_inv D L p1"
      "processed p \<subseteq> processed p1"
      "\<forall>x \<in> processed p1. x \<in> processed p \<or> rank_in L x \<le> rank_in L d"
      by auto
    from Cons.IH [OF first(2)] Cons.prems(2,3)
    obtain p' where rest: "process_noncyclic k g cyc ds p1 = Some p'" "process_inv D L p'"
      "processed p1 \<subseteq> processed p'"
      "\<forall>x \<in> processed p'. x \<in> processed p1
          \<or> (\<exists>e \<in> set ds. e \<notin> cyc \<and> rank_in L x \<le> rank_in L e)"
      by auto
    have "\<forall>x \<in> processed p'. x \<in> processed p
        \<or> (\<exists>e \<in> set (d # ds). e \<notin> cyc \<and> rank_in L x \<le> rank_in L e)"
    proof
      fix x
      assume "x \<in> processed p'"
      with rest(4) consider "x \<in> processed p1"
        | "\<exists>e \<in> set ds. e \<notin> cyc \<and> rank_in L x \<le> rank_in L e"
        by blast
      then show "x \<in> processed p
          \<or> (\<exists>e \<in> set (d # ds). e \<notin> cyc \<and> rank_in L x \<le> rank_in L e)"
      proof cases
        case 1
        with first(4) False show ?thesis by auto
      next
        case 2
        then show ?thesis by auto
      qed
    qed
    with False first(1,3) rest(1,2,3) show ?thesis by auto
  qed
qed

lemma processNode_step:
  assumes deps_ok: "\<And>ds p. process_inv D L p \<Longrightarrow> set ds \<subseteq> set L \<Longrightarrow>
      (\<forall>e \<in> set ds. e \<notin> cyc \<longrightarrow> rank_in L e \<le> k) \<Longrightarrow>
      \<exists>p'. process_noncyclic k g cyc ds p = Some p' \<and> process_inv D L p'
        \<and> processed p \<subseteq> processed p'
        \<and> (\<forall>x \<in> processed p'. x \<in> processed p
              \<or> (\<exists>e \<in> set ds. e \<notin> cyc \<and> rank_in L x \<le> rank_in L e))"
    and list: "distinct L" "topo_ok g cyc L" "set L = graph_nodes g"
    and selffree: "D \<longrightarrow> (\<forall>n. n \<notin> set (graph_get g n))"
    and inv: "process_inv D L p" and node: "u \<in> set L"
    and fuel: "u \<notin> cyc \<longrightarrow> rank_in L u \<le> Suc k" "u \<in> cyc \<longrightarrow> length L \<le> k"
  shows "\<exists>p'. processNode (Suc k) g cyc u p = Some p' \<and> process_inv D L p'
      \<and> processed p \<subseteq> processed p' \<and> u \<in> processed p'
      \<and> (u \<notin> cyc \<longrightarrow> (\<forall>x \<in> processed p'. x \<in> processed p \<or> rank_in L x \<le> rank_in L u))"
proof (cases "u \<in> processed p")
  case True
  with inv show ?thesis by auto
next
  case False
  let ?ds = "graph_get g u"
  have inside: "set ?ds \<subseteq> set L"
    using graph_get_nodes [of g u] list(3) by simp
  have lower: "\<And>e. e \<in> set ?ds \<Longrightarrow> e \<notin> cyc \<Longrightarrow> rank_in L e < rank_in L u"
    using rank_edge [OF list(1,2) node] by blast
  have enough: "\<forall>e \<in> set ?ds. e \<notin> cyc \<longrightarrow> rank_in L e \<le> k"
  proof (intro ballI impI)
    fix e
    assume e: "e \<in> set ?ds" "e \<notin> cyc"
    show "rank_in L e \<le> k"
    proof (cases "u \<in> cyc")
      case True
      with fuel(2) rank_in_le [of L e] show ?thesis by simp
    next
      case False
      with fuel(1) lower [OF e] show ?thesis by simp
    qed
  qed
  from deps_ok [OF inv inside enough]
  obtain p1 where first: "process_noncyclic k g cyc ?ds p = Some p1" "process_inv D L p1"
    "processed p \<subseteq> processed p1"
    "\<forall>x \<in> processed p1. x \<in> processed p
        \<or> (\<exists>e \<in> set ?ds. e \<notin> cyc \<and> rank_in L x \<le> rank_in L e)"
    by blast
  let ?p2 = "push_cyclic cyc ?ds p1"
  from push_cyclic_spec [OF first(2) inside, of cyc]
  have second: "process_inv D L ?p2" "processed p1 \<subseteq> processed ?p2"
    "processed ?p2 \<subseteq> processed p1 \<union> (set ?ds \<inter> cyc)"
    by simp_all
  let ?p' = "?p2\<lparr>finalSorted := finalSorted ?p2 @ [u], processed := insert u (processed ?p2)\<rparr>"
  have not1: "u \<notin> processed p1"
  proof
    assume "u \<in> processed p1"
    with first(4) False obtain e where "e \<in> set ?ds" "e \<notin> cyc" "rank_in L u \<le> rank_in L e"
      by blast
    with lower [of e] show False by simp
  qed
  have not2: "D \<Longrightarrow> u \<notin> processed ?p2"
    using second(3) not1 selffree by auto
  have inv': "process_inv D L ?p'"
    using second(1) node not2 by (auto simp: process_inv_def)
  have bound: "u \<notin> cyc \<longrightarrow> (\<forall>x \<in> processed ?p'. x \<in> processed p \<or> rank_in L x \<le> rank_in L u)"
  proof (intro impI ballI)
    fix x
    assume u: "u \<notin> cyc" and "x \<in> processed ?p'"
    then consider "x = u" | "x \<in> processed p1" | "x \<in> set ?ds" "x \<in> cyc"
      using second(3) by auto
    then show "x \<in> processed p \<or> rank_in L x \<le> rank_in L u"
    proof cases
      case 1
      then show ?thesis by simp
    next
      case 2
      with first(4) consider "x \<in> processed p"
        | e where "e \<in> set ?ds" "e \<notin> cyc" "rank_in L x \<le> rank_in L e"
        by blast
      then show ?thesis
      proof cases
        case 1
        then show ?thesis by simp
      next
        case 2
        with lower [of e] show ?thesis by simp
      qed
    next
      case 3
      from rank_edge [OF list(1,2) node 3(1)] u show ?thesis by simp
    qed
  qed
  have "processNode (Suc k) g cyc u p = Some ?p'"
    using False first(1) by (simp add: Let_def)
  moreover have "processed p \<subseteq> processed ?p'"
    using first(3) second(2) by auto
  ultimately show ?thesis
    using inv' bound by auto
qed

lemma processNode_noncyclic_total:
  assumes list: "distinct L" "topo_ok g cyc L" "set L = graph_nodes g"
    and selffree: "D \<longrightarrow> (\<forall>n. n \<notin> set (graph_get g n))"
  shows "process_inv D L p \<Longrightarrow> u \<in> set L \<Longrightarrow> u \<notin> cyc \<Longrightarrow> rank_in L u \<le> k \<Longrightarrow>
      \<exists>p'. processNode k g cyc u p = Some p' \<and> process_inv D L p'
        \<and> processed p \<subseteq> processed p' \<and> u \<in> processed p'
        \<and> (\<forall>x \<in> processed p'. x \<in> processed p \<or> rank_in L x \<le> rank_in L u)"
proof (induction k arbitrary: p u)
  case 0
  with rank_in_pos [of u L] show ?case by simp
next
  case (Suc k)
  have deps_ok: "\<And>ds p. process_inv D L p \<Longrightarrow> set ds \<subseteq> set L \<Longrightarrow>
      (\<forall>e \<in> set ds. e \<notin> cyc \<longrightarrow> rank_in L e \<le> k) \<Longrightarrow>
      \<exists>p'. process_noncyclic k g cyc ds p = Some p' \<and> process_inv D L p'
        \<and> processed p \<subseteq> processed p'
        \<and> (\<forall>x \<in> processed p'. x \<in> processed p
              \<or> (\<exists>e \<in> set ds. e \<notin> cyc \<and> rank_in L x \<le> rank_in L e))"
    by (rule process_noncyclic_from_node) (rule Suc.IH)
  from processNode_step [OF deps_ok list selffree Suc.prems(1,2)] Suc.prems(3,4)
  show ?case by auto
qed

lemma processNode_total:
  assumes list: "distinct L" "topo_ok g cyc L" "set L = graph_nodes g"
    and selffree: "D \<longrightarrow> (\<forall>n. n \<notin> set (graph_get g n))"
    and inv: "process_inv D L p" and node: "u \<in> set L" and fuel: "length L < k"
  shows "\<exists>p'. processNode k g cyc u p = Some p' \<and> process_inv D L p'
      \<and> processed p \<subseteq> processed p' \<and> u \<in> processed p'"
proof -
  from fuel obtain k' where k: "k = Suc k'" "length L \<le> k'"
    by (cases k) auto
  have deps_ok: "\<And>ds p. process_inv D L p \<Longrightarrow> set ds \<subseteq> set L \<Longrightarrow>
      (\<forall>e \<in> set ds. e \<notin> cyc \<longrightarrow> rank_in L e \<le> k') \<Longrightarrow>
      \<exists>p'. process_noncyclic k' g cyc ds p = Some p' \<and> process_inv D L p'
        \<and> processed p \<subseteq> processed p'
        \<and> (\<forall>x \<in> processed p'. x \<in> processed p
              \<or> (\<exists>e \<in> set ds. e \<notin> cyc \<and> rank_in L x \<le> rank_in L e))"
    by (rule process_noncyclic_from_node)
      (rule processNode_noncyclic_total [OF list selffree])
  have "u \<notin> cyc \<longrightarrow> rank_in L u \<le> Suc k'"
    using rank_in_le [of L u] k(2) by simp
  moreover have "u \<in> cyc \<longrightarrow> length L \<le> k'" using k(2) by simp
  ultimately show ?thesis
    using processNode_step [OF deps_ok list selffree inv node] k(1) by auto
qed

lemma second_pass_total:
  assumes list: "distinct L" "topo_ok g cyc L" "set L = graph_nodes g"
    and selffree: "D \<longrightarrow> (\<forall>n. n \<notin> set (graph_get g n))"
    and fuel: "length L < k"
  shows "process_inv D L p \<Longrightarrow> set us \<subseteq> set L \<Longrightarrow>
      \<exists>p'. second_pass k g cyc us p = Some p' \<and> process_inv D L p'
        \<and> processed p \<union> set us \<subseteq> processed p'"
proof (induction us arbitrary: p)
  case Nil
  then show ?case by simp
next
  case (Cons u us)
  from Cons.prems(2) have "u \<in> set L" by simp
  from processNode_total [OF list selffree Cons.prems(1) this fuel]
  obtain p1 where first: "processNode k g cyc u p = Some p1" "process_inv D L p1"
    "processed p \<subseteq> processed p1" "u \<in> processed p1"
    by blast
  from Cons.IH [OF first(2)] Cons.prems(2)
  obtain p' where "second_pass k g cyc us p1 = Some p'" "process_inv D L p'"
    "processed p1 \<union> set us \<subseteq> processed p'"
    by auto
  with first show ?case by auto
qed

section \<open>The list returned by the sorter\<close>

lemma topo_ok_closed:
  "topo_ok g c L \<Longrightarrow> u \<in> set L \<Longrightarrow> d \<in> set (graph_get g u) \<Longrightarrow> d \<in> set L \<or> d \<in> c"
  by (induction L) (auto simp: list_all_iff)

lemma graph_nodes_eq:
  "graph_nodes g = set (graph_keys g) \<union> (\<Union>n \<in> set (graph_keys g). set (graph_get g n))"
  by (auto simp: graph_nodes_def node_list_def)

lemma self_reference_freeD:
  assumes "self_reference_free g"
  shows "n \<notin> set (graph_get g n)"
proof (cases "n \<in> set (graph_keys g)")
  case True
  with assms show ?thesis by (simp add: self_reference_free_def list_all_iff)
next
  case False
  then show ?thesis by (simp add: graph_get_nonkey)
qed

lemma references_declared_nodes:
  "references_declared g \<Longrightarrow> graph_nodes g = set (graph_keys g)"
  by (auto simp: references_declared_def graph_nodes_eq list_all_iff)

text \<open>A larger bound on the depth of the recursion gives the same result.\<close>

lemma visit_mono:
  "visit k g n path s = Some s' \<Longrightarrow> visit (Suc k) g n path s = Some s'"
  "visit_deps k g ds path s = Some s' \<Longrightarrow> visit_deps (Suc k) g ds path s = Some s'"
  by (induction k g n path s and k g ds path s arbitrary: s' and s' rule: visit_visit_deps.induct)
    (auto split: if_splits option.splits)

lemma first_pass_mono:
  "first_pass k g ns s = Some s' \<Longrightarrow> first_pass (Suc k) g ns s = Some s'"
proof (induction ns arbitrary: s)
  case Nil
  then show ?case by simp
next
  case (Cons n ns)
  show ?case
  proof (cases "n \<in> visited s")
    case True
    with Cons show ?thesis by (simp del: visit.simps)
  next
    case False
    with Cons.prems obtain s1 where first: "visit k g n {} s = Some s1"
      and rest: "first_pass k g ns s1 = Some s'"
      by (auto simp del: visit.simps split: option.splits)
    from first have "visit (Suc k) g n {} s = Some s1" by (rule visit_mono)
    with False Cons.IH [OF rest] show ?thesis by (simp del: visit.simps)
  qed
qed

lemma processNode_mono:
  "processNode k g cyc u p = Some p' \<Longrightarrow> processNode (Suc k) g cyc u p = Some p'"
  "process_noncyclic k g cyc ds p = Some p' \<Longrightarrow> process_noncyclic (Suc k) g cyc ds p = Some p'"
  by (induction k g cyc u p and k g cyc ds p arbitrary: p' and p'
      rule: processNode_process_noncyclic.induct)
    (auto simp: Let_def split: if_splits option.splits)

lemma second_pass_mono:
  "second_pass k g cyc us p = Some p' \<Longrightarrow> second_pass (Suc k) g cyc us p = Some p'"
proof (induction us arbitrary: p)
  case Nil
  then show ?case by simp
next
  case (Cons u us)
  from Cons.prems obtain p1 where first: "processNode k g cyc u p = Some p1"
    and rest: "second_pass k g cyc us p1 = Some p'"
    by (auto simp del: processNode.simps split: option.splits)
  from first have "processNode (Suc k) g cyc u p = Some p1" by (rule processNode_mono)
  with Cons.IH [OF rest] show ?case by (simp del: processNode.simps)
qed

lemma sort_mono_Suc:
  "sortSchemasByDependency k g = Some out \<Longrightarrow> sortSchemasByDependency (Suc k) g = Some out"
  by (auto simp: sortSchemasByDependency_def first_pass_mono second_pass_mono
      split: option.splits)

lemma sort_mono:
  "sortSchemasByDependency k g = Some out \<Longrightarrow> k \<le> k' \<Longrightarrow>
   sortSchemasByDependency k' g = Some out"
  by (induction k' ) (auto simp: le_Suc_eq sort_mono_Suc)

text \<open>
  C1, the claim as stated: the list returned holds exactly the N declared names. It does
  not hold when a schema references a name that is not declared: \<open>buildSchemaDependencyGraph\<close>
  records the reference, and the sorter, which reads a name without an entry as a node
  without dependencies, returns it with the declared names. (The caller skips such a name.)
\<close>

theorem sort_returns_undeclared_reference:
  "buildSchemaDependencyGraph doc_dangling = [(''A'', [''X''])]
   \<and> graph_keys (buildSchemaDependencyGraph doc_dangling) = [''A'']
   \<and> sortSchemasByDependency 3 (buildSchemaDependencyGraph doc_dangling) = Some [''X'', ''A'']"
  by code_simp

text \<open>
  C1, amended: for every dependency graph and every bound on the depth of the recursion
  that exceeds the number of names in the graph, \<open>sortSchemasByDependency\<close> returns a list,
  the same for every such bound; the list holds every declared name and every name that a
  declared schema references, and no other name; when no schema references itself, each
  name is in the list exactly once; and when in addition every referenced name is declared
  (and the declared names are pairwise distinct, as the keys of a map are), the list holds
  exactly the N declared names.
\<close>

theorem sort_returns_every_name:
  assumes fuel: "length (node_list g) < k"
  shows "\<exists>out. sortSchemasByDependency k g = Some out
      \<and> (\<forall>k'. k \<le> k' \<longrightarrow> sortSchemasByDependency k' g = Some out)
      \<and> set out = graph_nodes g
      \<and> (self_reference_free g \<longrightarrow> distinct out)
      \<and> (self_reference_free g \<and> references_declared g \<and> distinct (graph_keys g) \<longrightarrow>
           set out = set (graph_keys g) \<and> length out = length (graph_keys g))"
proof -
  let ?s0 = "\<lparr>visited = {}, visiting = {}, cycles = {}, sorted_nodes = []\<rparr>"
  let ?p0 = "\<lparr>finalSorted = [], processed = {}\<rparr>"
  let ?D = "self_reference_free g"
  have small: "card (graph_nodes g) < k"
    using card_graph_nodes [of g] fuel by simp
  have "visit_inv g ?s0" by (simp add: visit_inv_def)
  from first_pass_total [OF this _ keys_nodes small]
  obtain s1 where pass1: "first_pass k g (graph_keys g) ?s0 = Some s1"
    and inv1: "visit_inv g s1" and idle: "visiting s1 = {}"
    and keys: "set (graph_keys g) \<subseteq> visited s1"
    by auto
  let ?L = "sorted_nodes s1"
  let ?cyc = "cycles s1"
  from inv1 idle have dist: "distinct ?L" and topo: "topo_ok g ?cyc ?L"
    and vis: "visited s1 = set ?L" and inside: "set ?L \<subseteq> graph_nodes g"
    and marked: "?cyc \<subseteq> set ?L"
    by (auto simp: visit_inv_def)
  have all: "set ?L = graph_nodes g"
  proof
    show "set ?L \<subseteq> graph_nodes g" by (rule inside)
    show "graph_nodes g \<subseteq> set ?L"
    proof
      fix x
      assume "x \<in> graph_nodes g"
      then consider "x \<in> set (graph_keys g)"
        | u where "u \<in> set (graph_keys g)" "x \<in> set (graph_get g u)"
        by (auto simp: graph_nodes_eq)
      then show "x \<in> set ?L"
      proof cases
        case 1
        with keys vis show ?thesis by auto
      next
        case 2
        with keys vis have "u \<in> set ?L" by auto
        from topo_ok_closed [OF topo this 2(2)] marked show ?thesis by auto
      qed
    qed
  qed
  have "length ?L = card (graph_nodes g)"
    using dist all by (metis distinct_card)
  with small have enough: "length ?L < k" by simp
  have selffree: "?D \<longrightarrow> (\<forall>n. n \<notin> set (graph_get g n))"
    by (auto dest: self_reference_freeD)
  have "process_inv ?D ?L ?p0" by (simp add: process_inv_def)
  from second_pass_total [OF dist topo all selffree enough this, of ?L]
  obtain p' where pass2: "second_pass k g ?cyc ?L ?p0 = Some p'"
    and inv2: "process_inv ?D ?L p'" and every: "set ?L \<subseteq> processed p'"
    by auto
  let ?out = "finalSorted p'"
  have result: "sortSchemasByDependency k g = Some ?out"
    using pass1 pass2 by (simp add: sortSchemasByDependency_def)
  have names: "set ?out = graph_nodes g"
    using inv2 every all by (auto simp: process_inv_def)
  have once: "?D \<longrightarrow> distinct ?out"
    using inv2 by (simp add: process_inv_def)
  have exact: "?D \<and> references_declared g \<and> distinct (graph_keys g) \<longrightarrow>
      set ?out = set (graph_keys g) \<and> length ?out = length (graph_keys g)"
  proof
    assume h: "?D \<and> references_declared g \<and> distinct (graph_keys g)"
    with names have same: "set ?out = set (graph_keys g)"
      by (simp add: references_declared_nodes)
    from h once have "distinct ?out" by simp
    with same h have "length ?out = length (graph_keys g)"
      by (metis distinct_card)
    with same show "set ?out = set (graph_keys g) \<and> length ?out = length (graph_keys g)"
      by simp
  qed
  from result have "\<forall>k'. k \<le> k' \<longrightarrow> sortSchemasByDependency k' g = Some ?out"
    by (auto intro: sort_mono)
  with result names once exact show ?thesis by blast
qed

theorem sort_returns_every_name_witness:
  "length (node_list [(''Pet'', [''Owner'']), (''Owner'', [''Pet''])]) < 5
   \<and> sortSchemasByDependency 5 [(''Pet'', [''Owner'']), (''Owner'', [''Pet''])] =
       Some [''Owner'', ''Pet'']
   \<and> set [''Owner'', ''Pet''] = graph_nodes [(''Pet'', [''Owner'']), (''Owner'', [''Pet''])]
   \<and> self_reference_free [(''Pet'', [''Owner'']), (''Owner'', [''Pet''])]
   \<and> distinct [''Owner'', ''Pet'']"
proof -
  let ?g = "[(''Pet'', [''Owner'']), (''Owner'', [''Pet''])]"
  have fuel: "length (node_list ?g) < 5"
    by code_simp
  have val: "sortSchemasByDependency 5 ?g = Some [''Owner'', ''Pet'']"
    by code_simp
  have free: "self_reference_free ?g"
    by code_simp
  from sort_returns_every_name [OF fuel] val
  have "set [''Owner'', ''Pet''] = graph_nodes ?g"
    and "self_reference_free ?g \<longrightarrow> distinct [''Owner'', ''Pet'']"
    by auto
  with fuel val free show ?thesis by blast
qed

text \<open>
  The amended statement leaves out the schema that references itself: the sorter returns
  its name twice, pushed once as a cycle dependency of itself and once as the node.
\<close>

lemma sort_self_reference_twice:
  "sortSchemasByDependency (Suc (Suc k)) [(''A'', [''A''])] = Some [''A'', ''A'']"
  by (simp add: sortSchemasByDependency_def graph_keys_def graph_get_def)

section \<open>Properties of the ordering\<close>

text \<open>
  C2 (acyclic ordering). The claim: for every edge A\<rightarrow>B whose target B is in no reference
  cycle, B comes before A in the list returned by \<open>sortSchemasByDependency\<close>. In the
  document below \<open>A\<close> and \<open>B\<close> reference each other and \<open>B\<close> references \<open>D\<close>, which
  references nothing. \<open>B\<close> is pushed as a cycle dependency of \<open>A\<close> without a visit of its
  own dependencies, so \<open>D\<close> comes after \<open>B\<close>. Every recursion bound of at least four
  gives this list.
\<close>

theorem sort_cycle_member_before_its_dependency:
  "buildSchemaDependencyGraph doc_cycle =
     [(''A'', [''B'']), (''B'', [''A'', ''D'']), (''D'', [])]
   \<and> sortSchemasByDependency (Suc (Suc (Suc (Suc k)))) (buildSchemaDependencyGraph doc_cycle) =
       Some [''B'', ''A'', ''D'']"
  by code_simp

section \<open>The end-to-end scenarios\<close>

text \<open>
  C4, the claim as stated (scenario B): the class generated for \<open>Dog\<close> declares only
  \<open>breed\<close>. It does not hold: \<open>generateClassProperties\<close> emits every property that
  \<open>mergeParentProperties\<close> has merged, so the class \<open>Dog extends Pet\<close> declares \<open>id\<close> and
  \<open>name\<close> again.
\<close>

theorem scenario_B_dog_redeclares_inherited:
  "(case generateClassesFromOpenAPI 5 docB empty_store no_tokens of
      None \<Rightarrow> False
    | Some g \<Rightarrow>
        list_ex (\<lambda>c. startsWith c ''\<newline>export class Dog extends Pet {''
                       \<and> includes_str c ''  id?: number;''
                       \<and> includes_str c ''  name: string;'') (child_out g))"
  by code_simp

text \<open>
  C4, amended: for the document of scenario B, with any store, any random tokens and any
  recursion bound of at least two, generation yields no enumeration, the base class \<open>Pet\<close>
  with \<open>id\<close> and \<open>name\<close>, and the class \<open>Dog extends Pet\<close> whose body declares the merged
  properties \<open>id\<close>, \<open>name\<close> and \<open>breed\<close>.
\<close>

theorem scenario_B_flattened_dog:
  "result_classes (generateClassesFromOpenAPI (Suc (Suc k)) docB h tokens) =
     Some ([],
       [''\<newline>export class Pet {\<newline>  @IsOptional()\<newline>  @IsInt()\<newline>  id?: number;\<newline>\<newline>  @IsString()\<newline>  name: string;\<newline>\<newline>}''],
       [''\<newline>export class Dog extends Pet {\<newline>  @IsOptional()\<newline>  @IsInt()\<newline>  id?: number;\<newline>\<newline>  @IsString()\<newline>  name: string;\<newline>\<newline>  @IsOptional()\<newline>  @IsString()\<newline>  breed?: string;\<newline>\<newline>}''])"
  by code_simp

text \<open>
  C5, the claim as stated (scenario C): the responses 200 and 404 of \<open>getPet\<close> yield the two
  classes \<open>GetPet200Response\<close> and \<open>GetPet404Response\<close>. It does not hold: a response whose
  status code does not start with 2 is skipped, and no generated class mentions
  \<open>GetPet404Response\<close>.
\<close>

theorem scenario_C_no_404_class:
  "(case generateClassesFromOpenAPI 5 (docC ''404'') heapC no_tokens of
      None \<Rightarrow> False
    | Some g \<Rightarrow>
        \<not> list_ex (\<lambda>c. includes_str c ''GetPet404Response'') (base_out g @ child_out g))"
  by code_simp

text \<open>
  C5, amended: when the second response of \<open>getPet\<close> also has a 2xx status (201), the two
  inline enumerations resolve to the one declaration \<open>GetPetStatus\<close>, and the two classes
  \<open>GetPet200Response\<close> and \<open>GetPet201Response\<close> are generated and refer to it; when the
  second response has the status 404, it is ignored and \<open>GetPet200Response\<close> is the only
  class.
\<close>

theorem scenario_C_2xx_responses_share_enum:
  "result_classes (generateClassesFromOpenAPI (Suc (Suc k)) (docC ''201'') heapC tokens) =
     Some ([inline_enum_definition ''GetPetStatus'' [EStr ''available'', EStr ''sold'']],
       [''\<newline>export class GetPet200Response {\<newline>  @IsOptional()\<newline>  @IsString()\<newline>  @IsEnum(GetPetStatus)\<newline>  status?: GetPetStatus;\<newline>\<newline>}'',
        ''\<newline>export class GetPet201Response {\<newline>  @IsOptional()\<newline>  @IsString()\<newline>  @IsEnum(GetPetStatus)\<newline>  state?: GetPetStatus;\<newline>\<newline>}''],
       [])
   \<and> result_classes (generateClassesFromOpenAPI (Suc (Suc k)) (docC ''404'') heapC tokens) =
     Some ([inline_enum_definition ''GetPetStatus'' [EStr ''available'', EStr ''sold'']],
       [''\<newline>export class GetPet200Response {\<newline>  @IsOptional()\<newline>  @IsString()\<newline>  @IsEnum(GetPetStatus)\<newline>  status?: GetPetStatus;\<newline>\<newline>}''],
       [])"
  by code_simp

section \<open>The input document and the store of its arrays\<close>

text \<open>
  C7 (the core never changes the document). The schema \<open>Order\<close> declares the enumeration
  \<open>["sold", "available"]\<close> for its property \<open>status\<close>. \<open>getEnumNameFromProperty\<close> sorts this
  array in place: after the run the array of the document is \<open>["available", "sold"]\<close>, and
  the declaration emitted lists the members in the sorted order.
\<close>

theorem enum_array_sorted_in_place:
  "heapD 0 = [EStr ''sold'', EStr ''available'']
   \<and> map_option (\<lambda>g. store (final_state g) 0)
         (generateClassesFromOpenAPI (Suc (Suc k)) docD heapD tokens)
       = Some [EStr ''available'', EStr ''sold'']
   \<and> map_option enums_out (generateClassesFromOpenAPI (Suc (Suc k)) docD heapD tokens)
       = Some [inline_enum_definition ''OrderStatus'' [EStr ''available'', EStr ''sold'']]"
  by code_simp

section \<open>The name in an emitted property declaration\<close>


section \<open>Unresolvable references\<close>





section \<open>Operations without an identifier\<close>

lemma for_each_append:
  "for_each f (xs @ ys) s = (case for_each f xs s of None \<Rightarrow> None | Some s' \<Rightarrow> for_each f ys s')"
  by (induction xs arbitrary: s) (auto split: option.splits)

text \<open>
  The generator reads the paths of the document only in its loop over the paths: every
  function that is handed the document gives the same result for two documents with the
  same schemas.
\<close>

lemma lookup_schema_cong:
  "schemas d1 = schemas d2 \<Longrightarrow> lookup_schema d1 = lookup_schema d2"
  by (auto simp: lookup_schema_def)

lemma resolveRef_cong:
  "schemas d1 = schemas d2 \<Longrightarrow> resolveRef r d1 = resolveRef r d2"
  by (simp add: resolveRef_def lookup_schema_cong [of d1 d2])

lemma mergeParentProperties_cong:
  assumes same: "schemas d1 = schemas d2"
  shows "mergeParentProperties k s d1 = mergeParentProperties k s d2"
    and "merge_allOf k subs d1 acc = merge_allOf k subs d2 acc"
proof -
  have resolve: "\<And>r. resolveRef r d1 = resolveRef r d2"
    using same by (rule resolveRef_cong)
  have "(schemas d1 = schemas d2 \<longrightarrow> mergeParentProperties k s d1 = mergeParentProperties k s d2)"
    and "(schemas d1 = schemas d2 \<longrightarrow> merge_allOf k subs d1 acc = merge_allOf k subs d2 acc)"
  proof (induction k s d1 and k subs d1 acc rule: mergeParentProperties_merge_allOf.induct)
    case (1 s doc)
    then show ?case by simp
  next
    case (2 k s doc)
    then show ?case by (auto split: option.splits)
  next
    case (3 k doc acc)
    then show ?case by simp
  next
    case (4 k subSchema subs doc mergedProperties mergedRequired)
    show ?case
    proof
      assume eq: "schemas doc = schemas d2"
      then have r: "\<And>r. resolveRef r doc = resolveRef r d2" by (rule resolveRef_cong)
      show "merge_allOf k (subSchema # subs) doc (mergedProperties, mergedRequired) =
          merge_allOf k (subSchema # subs) d2 (mergedProperties, mergedRequired)"
      proof (cases "truthy (ref subSchema)")
        case False
        with 4(4) eq show ?thesis by simp
      next
        case True
        show ?thesis
        proof (cases "resolveRef (the (ref subSchema)) doc")
          case None
          with True 4(1) eq r show ?thesis by simp
        next
          case (Some parentSchema)
          show ?thesis
          proof (cases "mergeParentProperties k parentSchema doc")
            case None
            with True Some 4(2) [OF True Some] eq r show ?thesis by simp
          next
            case found: (Some pr)
            obtain pp prq where pr: "pr = (pp, prq)" by (cases pr)
            from 4(2) [OF True Some] eq found
            have "mergeParentProperties k parentSchema d2 = Some pr" by simp
            moreover from 4(3) [OF True Some found pr [symmetric]] eq
            have "merge_allOf k subs doc
                (object_assign mergedProperties pp, mergedRequired @ prq) =
              merge_allOf k subs d2
                (object_assign mergedProperties pp, mergedRequired @ prq)"
              by simp
            ultimately show ?thesis
              using True Some found pr r by simp
          qed
        qed
      qed
    qed
  qed
  with same show "mergeParentProperties k s d1 = mergeParentProperties k s d2"
    and "merge_allOf k subs d1 acc = merge_allOf k subs d2 acc"
    by simp_all
qed

lemma getAllParentClasses_cong:
  assumes same: "schemas d1 = schemas d2"
  shows "getAllParentClasses k s d1 = getAllParentClasses k s d2"
    and "parents_of_allOf k subs d1 parents = parents_of_allOf k subs d2 parents"
proof -
  have "(schemas d1 = schemas d2 \<longrightarrow> getAllParentClasses k s d1 = getAllParentClasses k s d2)"
    and "(schemas d1 = schemas d2 \<longrightarrow>
          parents_of_allOf k subs d1 parents = parents_of_allOf k subs d2 parents)"
  proof (induction k s d1 and k subs d1 parents rule: getAllParentClasses_parents_of_allOf.induct)
    case (1 s doc)
    then show ?case by simp
  next
    case (2 k s doc)
    then show ?case by (auto split: option.splits)
  next
    case (3 k doc parents)
    then show ?case by simp
  next
    case (4 k subSchema subs doc parents)
    show ?case
    proof
      assume eq: "schemas doc = schemas d2"
      then have l: "lookup_schema doc = lookup_schema d2" by (rule lookup_schema_cong)
      let ?isref = "truthy (ref subSchema) \<and> startsWith (the (ref subSchema)) schemas_prefix"
      let ?name = "replace_first (the (ref subSchema)) schemas_prefix []"
      show "parents_of_allOf k (subSchema # subs) doc parents =
          parents_of_allOf k (subSchema # subs) d2 parents"
      proof (cases ?isref)
        case False
        with 4(4) eq show ?thesis by auto
      next
        case True
        show ?thesis
        proof (cases "lookup_schema doc ?name")
          case None
          with True 4(1) [OF True refl None] eq l show ?thesis by (simp add: Let_def)
        next
          case (Some parentSchema)
          show ?thesis
          proof (cases "getAllParentClasses k parentSchema doc")
            case None
            with True Some 4(2) [OF True refl Some] eq l show ?thesis by (simp add: Let_def)
          next
            case found: (Some ancestors)
            from 4(2) [OF True refl Some] eq found
            have "getAllParentClasses k parentSchema d2 = Some ancestors" by simp
            moreover from 4(3) [OF True refl Some found] eq
            have "parents_of_allOf k subs doc (parents @ [?name] @ ancestors) =
                parents_of_allOf k subs d2 (parents @ [?name] @ ancestors)"
              by simp
            ultimately show ?thesis
              using True Some found l by (simp add: Let_def)
          qed
        qed
      qed
    qed
  qed
  with same show "getAllParentClasses k s d1 = getAllParentClasses k s d2"
    and "parents_of_allOf k subs d1 parents = parents_of_allOf k subs d2 parents"
    by simp_all
qed

lemma generateClassProperty_body_cong:
  assumes same: "schemas d1 = schemas d2"
    and rec: "\<And>s r c st. rec1 s r d1 c st = rec2 s r d2 c st"
  shows "generateClassProperty_body rec1 pn s req d1 used c st =
      generateClassProperty_body rec2 pn s req d2 used c st"
proof -
  have resolve: "\<And>r. resolveRef r d1 = resolveRef r d2"
    using same by (rule resolveRef_cong)
  show ?thesis
    unfolding generateClassProperty_body_def resolve rec ..
qed

lemma properties_loop_cong:
  assumes "\<And>pn s req used c st. f1 pn s req d1 used c st = f2 pn s req d2 used c st"
  shows "properties_loop f1 props req d1 used c acc st =
      properties_loop f2 props req d2 used c acc st"
proof (induction props arbitrary: used acc st)
  case Nil
  then show ?case by (cases acc) simp
next
  case (Cons e props)
  obtain pn ps where e: "e = (pn, ps)" by (cases e)
  obtain a1 a2 a3 where acc: "acc = (a1, a2, a3)" by (cases acc)
  show ?case
    unfolding e acc by (simp add: assms Cons.IH split: option.splits prod.splits)
qed

lemma generateClassProperties_cong:
  assumes same: "schemas d1 = schemas d2"
  shows "generateClassProperties k s r d1 c st = generateClassProperties k s r d2 c st"
proof (induction k arbitrary: s r c st)
  case 0
  then show ?case by simp
next
  case (Suc k)
  have body: "\<And>pn s req used c st.
      generateClassProperty_body (generateClassProperties k) pn s req d1 used c st =
      generateClassProperty_body (generateClassProperties k) pn s req d2 used c st"
    using same Suc.IH by (rule generateClassProperty_body_cong)
  have loop: "\<And>props req used c acc st.
      properties_loop (generateClassProperty_body (generateClassProperties k)) props req d1 used c
        acc st =
      properties_loop (generateClassProperty_body (generateClassProperties k)) props req d2 used c
        acc st"
    using body by (rule properties_loop_cong)
  show ?case
    by (simp add: mergeParentProperties_cong(1) [OF same] loop split: option.splits)
qed

lemma intermediate_classes_cong:
  assumes same: "schemas d1 = schemas d2"
  shows "intermediate_classes k ps cn d1 ip em st = intermediate_classes k ps cn d2 ip em st"
proof (induction ps arbitrary: ip em st)
  case Nil
  then show ?case by simp
next
  case (Cons parentName ps)
  show ?case
    by (simp add: lookup_schema_cong [OF same] generateClassProperties_cong [OF same] Cons.IH
        Let_def split: option.splits prod.splits)
qed

lemma schema_extends_cong:
  assumes same: "schemas d1 = schemas d2"
  shows "schema_extends k s cn d1 em st = schema_extends k s cn d2 em st"
  unfolding schema_extends_def getAllParentClasses_cong(1) [OF same]
    intermediate_classes_cong [OF same]
  by (rule refl)

lemma process_schema_cong:
  assumes same: "schemas d1 = schemas d2"
  shows "process_schema k d1 = process_schema k d2"
  unfolding process_schema_def lookup_schema_cong [OF same]
    generateClassProperties_cong [OF same] schema_extends_cong [OF same]
  by (rule refl)

lemma process_path_cong:
  assumes same: "schemas d1 = schemas d2"
  shows "process_path k d1 = process_path k d2"
  unfolding process_path_def process_operation_def process_response_def process_content_def
    generateClassProperties_cong [OF same]
  by (rule refl)

lemma generateClassesFromOpenAPI_cong:
  assumes same: "schemas d1 = schemas d2"
    and paths: "\<And>es. for_each (process_path k d2) (paths d1) es =
        for_each (process_path k d2) (paths d2) es"
  shows "generateClassesFromOpenAPI k d1 h tokens = generateClassesFromOpenAPI k d2 h tokens"
proof -
  have "getEnums h d1 = getEnums h d2"
    using same by (simp add: getEnums_def)
  moreover have "buildSchemaDependencyGraph d1 = buildSchemaDependencyGraph d2"
    using same by (simp add: buildSchemaDependencyGraph_def)
  ultimately show ?thesis
    unfolding generateClassesFromOpenAPI_def same process_schema_cong [OF same]
      process_path_cong [OF same] paths
    by simp
qed

text \<open>
  C10. An operation whose \<open>operationId\<close> is missing (or empty) is skipped: its round of the
  loop over the operations of a path returns the arrays of generated text and the
  registries as they were, whatever its responses are, and the result of the whole
  generation is the result for the document without this operation.
\<close>

theorem operation_without_id_is_skipped:
  assumes "\<not> truthy (operationId op)"
  shows "process_operation k doc (method, op) es = Some es
    \<and> generateClassesFromOpenAPI k
        (doc\<lparr>paths := ps1 @ (path, ops1 @ (method, op) # ops2) # ps2\<rparr>) h tokens =
      generateClassesFromOpenAPI k (doc\<lparr>paths := ps1 @ (path, ops1 @ ops2) # ps2\<rparr>) h tokens"
proof -
  let ?d1 = "doc\<lparr>paths := ps1 @ (path, ops1 @ (method, op) # ops2) # ps2\<rparr>"
  let ?d2 = "doc\<lparr>paths := ps1 @ (path, ops1 @ ops2) # ps2\<rparr>"
  have skip: "\<And>d es'. process_operation k d (method, op) es' = Some es'"
    using assms by (simp add: process_operation_def)
  have one: "\<And>d es'. process_path k d (path, ops1 @ (method, op) # ops2) es' =
      process_path k d (path, ops1 @ ops2) es'"
    by (simp add: process_path_def for_each_append skip split: option.splits)
  have "\<And>es'. for_each (process_path k ?d2) (paths ?d1) es' =
      for_each (process_path k ?d2) (paths ?d2) es'"
    by (simp add: for_each_append one split: option.splits)
  then have "generateClassesFromOpenAPI k ?d1 h tokens = generateClassesFromOpenAPI k ?d2 h tokens"
    by (intro generateClassesFromOpenAPI_cong) simp_all
  with skip show ?thesis by simp
qed

theorem operation_without_id_is_skipped_witness:
  "process_operation 3 docA
     (''get'', \<lparr>operationId = None,
               responses = [(''200'', \<lparr>content = Some [(''application/json'',
                                                          Some (prim ''string''))]\<rparr>)]\<rparr>)
     (\<lparr>generatedEnums = [], baseClasses = [], childClasses = [], processedSchemas = []\<rparr>,
      initial_state empty_store no_tokens) =
   Some (\<lparr>generatedEnums = [], baseClasses = [], childClasses = [], processedSchemas = []\<rparr>,
         initial_state empty_store no_tokens)
   \<and> generateClassesFromOpenAPI 3
       (docA\<lparr>paths := [] @ (''/pets'',
          [] @ (''get'', \<lparr>operationId = None,
                          responses = [(''200'', \<lparr>content = Some [(''application/json'',
                                                                     Some (prim ''string''))]\<rparr>)]\<rparr>)
             # []) # []\<rparr>) empty_store no_tokens =
     generateClassesFromOpenAPI 3 (docA\<lparr>paths := [] @ (''/pets'', [] @ []) # []\<rparr>)
       empty_store no_tokens"
proof -
  have h: "\<not> truthy (operationId \<lparr>operationId = None,
      responses = [(''200'', \<lparr>content = Some [(''application/json'',
                                                 Some (prim ''string''))]\<rparr>)]\<rparr>)"
    by (simp add: truthy_def)
  show ?thesis
    using operation_without_id_is_skipped [OF h] by blast
qed

section \<open>The enum registry\<close>

lemma js_sort_idem: "js_sort (js_sort vs) = js_sort vs"
  by (simp add: js_sort_def sort_key_id_if_sorted)


text \<open>The scan of the registry finds the first entry whose sorted array is the key.\<close>

lemma find_existing_enum_spec:
  "find_existing_enum es K h = (r, h') \<Longrightarrow>
     (\<forall>x. js_sort (h' x) = js_sort (h x))
     \<and> r = map_option fst (find (\<lambda>(n, x). js_sort (h x) = K) es)"
proof (induction es arbitrary: h)
  case Nil
  then show ?case by simp
next
  case (Cons e es)
  obtain n x where e: "e = (n, x)" by (cases e)
  let ?h1 = "h(x := js_sort (h x))"
  have keys: "\<forall>y. js_sort (?h1 y) = js_sort (h y)"
    by (simp add: js_sort_idem)
  show ?case
  proof (cases "js_sort (h x) = K")
    case True
    with Cons.prems e keys show ?thesis by (auto simp: Let_def)
  next
    case False
    with Cons.prems e have rest: "find_existing_enum es K ?h1 = (r, h')"
      by (simp add: Let_def)
    from Cons.IH [OF rest] keys False e show ?thesis
      by simp
  qed
qed


text \<open>
  What one request does to the registry: the store keeps every array up to sorting; when
  an entry with the key exists, the first one gives the name and the registry is unchanged;
  otherwise the name returned is set to the request's array.
\<close>

lemma getEnumNameFromProperty_spec:
  assumes "getEnumNameFromProperty p a c st = (n, st')"
  shows "(\<forall>x. js_sort (store st' x) = js_sort (store st x))
    \<and> (case find (\<lambda>(n', x). js_sort (store st x) = js_sort (store st a)) (usedEnums st) of
         Some (n', x) \<Rightarrow> n = n' \<and> usedEnums st' = usedEnums st
       | None \<Rightarrow> usedEnums st' = map_set (usedEnums st) n a)"
proof -
  let ?h1 = "(store st)(a := js_sort (store st a))"
  let ?K = "js_sort (store st a)"
  obtain r h2 where scan: "find_existing_enum (usedEnums st) ?K ?h1 = (r, h2)"
    by (cases "find_existing_enum (usedEnums st) ?K ?h1")
  have keys1: "\<And>x. js_sort (?h1 x) = js_sort (store st x)"
    by (simp add: js_sort_idem)
  from find_existing_enum_spec [OF scan] keys1
  have keys2: "\<forall>x. js_sort (h2 x) = js_sort (store st x)"
    and r: "r = map_option fst (find (\<lambda>(n', x). js_sort (store st x) = ?K) (usedEnums st))"
    by simp_all
  show ?thesis
  proof (cases r)
    case None
    with r have nf: "find (\<lambda>(n', x). js_sort (store st x) = ?K) (usedEnums st) = None"
      by simp
    from assms scan None have "store st' = h2 \<and> usedEnums st' = map_set (usedEnums st) n a"
      by (auto simp: getEnumNameFromProperty_def Let_def split: if_splits option.splits)
    with keys2 nf show ?thesis by simp
  next
    case (Some name)
    with r obtain x where f: "find (\<lambda>(n', x). js_sort (store st x) = ?K) (usedEnums st) = Some (name, x)"
      by (cases "find (\<lambda>(n', x). js_sort (store st x) = ?K) (usedEnums st)") auto
    from assms scan Some have "n = name \<and> store st' = h2 \<and> usedEnums st' = usedEnums st"
      by (auto simp: getEnumNameFromProperty_def Let_def)
    with keys2 f show ?thesis by simp
  qed
qed




section \<open>The name registries\<close>

lemma map_of_map_set:
  "map_of (map_set m k v) k' = (if k' = k then Some v else map_of m k')"
  by (induction m) auto

lemma map_set_fresh: "k \<notin> fst ` set m \<Longrightarrow> map_set m k v = m @ [(k, v)]"
  by (induction m) auto

lemma find_SomeD: "find P xs = Some x \<Longrightarrow> P x \<and> x \<in> set xs"
  by (induction xs) (auto split: if_splits)

lemma find_None_iff_all: "find P xs = None \<Longrightarrow> x \<in> set xs \<Longrightarrow> \<not> P x"
  by (induction xs) (auto split: if_splits)

text \<open>The shapes of the results of the three allocators.\<close>

lemma getClassNameFromSchemaName_cases:
  assumes "getClassNameFromSchemaName a st = (n, st1)"
  obtains (cached) "map_of (schemaToClassName st) a = Some n" "st1 = st"
  | (fresh) "map_of (schemaToClassName st) a = None" "n \<notin> set (usedNames st)"
      "st1 = st\<lparr>usedNames := usedNames st @ [n],
                  schemaToClassName := map_set (schemaToClassName st) a n\<rparr>"
  | (fallback) "random_calls st1 = Suc (random_calls st)"
proof (cases "map_of (schemaToClassName st) a")
  case (Some c)
  with assms have "map_of (schemaToClassName st) a = Some n \<and> st1 = st"
    by (simp add: getClassNameFromSchemaName_def)
  then show ?thesis using cached by simp
next
  case None
  show ?thesis
  proof (cases "a \<notin> set (usedNames st)")
    case True
    with None assms have "n = a \<and> st1 = st\<lparr>usedNames := usedNames st @ [n],
        schemaToClassName := map_set (schemaToClassName st) a n\<rparr>"
      by (auto simp: getClassNameFromSchemaName_def set_add_def)
    with None True show ?thesis using fresh by simp
  next
    case taken: False
    show ?thesis
    proof (cases "toPascalCase a \<notin> set (usedNames st)")
      case True
      with None taken assms have "n = toPascalCase a \<and> st1 = st\<lparr>usedNames := usedNames st @ [n],
          schemaToClassName := map_set (schemaToClassName st) a n\<rparr>"
        by (auto simp: getClassNameFromSchemaName_def set_add_def Let_def)
      with None True show ?thesis using fresh by simp
    next
      case False
      let ?cands = "map (\<lambda>suffix. toPascalCase a @ suffix)
          [''Model'', ''Type'', ''Entity'', ''Object'', ''Data'']"
      show ?thesis
      proof (cases "find (\<lambda>newName. newName \<notin> set (usedNames st)) ?cands")
        case no: None
        with None taken False assms have "random_calls st1 = Suc (random_calls st)"
          by (auto simp add: getClassNameFromSchemaName_def Let_def simp del: find.simps)
        then show ?thesis using fallback by simp
      next
        case (Some c)
        from find_SomeD [OF Some] have c: "c \<notin> set (usedNames st)" by simp
        from Some None taken False assms have "n = c \<and> st1 = st\<lparr>usedNames := set_add (usedNames st) n,
            schemaToClassName := map_set (schemaToClassName st) a n\<rparr>"
          by (auto simp add: getClassNameFromSchemaName_def Let_def simp del: find.simps)
        with c None show ?thesis using fresh by (simp add: set_add_def)
      qed
    qed
  qed
qed

lemma getClassNameFromOperationId_cases:
  assumes "getClassNameFromOperationId opId statusCode st = (n, st1)"
  obtains (fresh) "n \<notin> set (usedNames st)" "st1 = st\<lparr>usedNames := usedNames st @ [n]\<rparr>"
  | (fallback) "random_calls st1 = Suc (random_calls st)"
proof (cases "toPascalCase opId @ statusCode @ ''Response'' \<notin> set (usedNames st)")
  case True
  with assms have "n \<notin> set (usedNames st) \<and> st1 = st\<lparr>usedNames := usedNames st @ [n]\<rparr>"
    by (auto simp: getClassNameFromOperationId_def set_add_def Let_def)
  then show ?thesis using fresh by simp
next
  case False
  let ?cands = "map (\<lambda>suffix. (toPascalCase opId @ statusCode @ ''Response'') @ suffix)
      [''Detail'', ''Extended'', ''Full'', ''Complete'', ''Info'']"
  show ?thesis
  proof (cases "find (\<lambda>newName. newName \<notin> set (usedNames st)) ?cands")
    case None
    with False assms have "random_calls st1 = Suc (random_calls st)"
      by (auto simp add: getClassNameFromOperationId_def Let_def simp del: find.simps)
    then show ?thesis using fallback by simp
  next
    case (Some c)
    from find_SomeD [OF Some] have c: "c \<notin> set (usedNames st)" by simp
    from Some False assms have "n = c \<and> st1 = st\<lparr>usedNames := set_add (usedNames st) n\<rparr>"
      by (auto simp add: getClassNameFromOperationId_def Let_def simp del: find.simps)
    with c show ?thesis using fresh by (simp add: set_add_def)
  qed
qed

lemma getEnumNameFromProperty_cases:
  assumes "getEnumNameFromProperty p a c st = (n, st1)"
  obtains (existing) h2 where
      "find (\<lambda>(n', x). js_sort (store st x) = js_sort (store st a)) (usedEnums st) \<noteq> None"
      "st1 = st\<lparr>store := h2\<rparr>"
  | (fresh) h2 where
      "find (\<lambda>(n', x). js_sort (store st x) = js_sort (store st a)) (usedEnums st) = None"
      "n \<notin> fst ` set (usedEnums st)"
      "st1 = st\<lparr>store := h2, usedEnums := map_set (usedEnums st) n a\<rparr>"
  | (fallback) "random_calls st1 = Suc (random_calls st)"
proof -
  let ?h1 = "(store st)(a := js_sort (store st a))"
  let ?K = "js_sort (store st a)"
  obtain r h2 where scan: "find_existing_enum (usedEnums st) ?K ?h1 = (r, h2)"
    by (cases "find_existing_enum (usedEnums st) ?K ?h1")
  have keys1: "\<And>x. js_sort (?h1 x) = js_sort (store st x)"
    by (simp add: js_sort_idem)
  from find_existing_enum_spec [OF scan] keys1
  have r: "r = map_option fst (find (\<lambda>(n', x). js_sort (store st x) = ?K) (usedEnums st))"
    by simp
  let ?base = "(if toLowerCase p = ''currency'' then ''Currency''
      else if toLowerCase p = ''status'' then toPascalCase c @ ''Status''
      else toPascalCase c @ toPascalCase p)"
  let ?cands = "map (\<lambda>suffix. ?base @ suffix) [''Type'', ''Enum'', ''Values'', ''Options'', ''List'']"
  show ?thesis
  proof (cases r)
    case (Some name)
    with assms scan have "st1 = st\<lparr>store := h2\<rparr>"
      by (simp add: getEnumNameFromProperty_def Let_def)
    moreover from Some r
    have "find (\<lambda>(n', x). js_sort (store st x) = ?K) (usedEnums st) \<noteq> None"
      by auto
    ultimately show ?thesis using existing by simp
  next
    case None
    with r have nf: "find (\<lambda>(n', x). js_sort (store st x) = ?K) (usedEnums st) = None"
      by simp
    show ?thesis
    proof (cases "has_key (usedEnums st) ?base")
      case False
      with assms scan None
      have "n = ?base \<and> st1 = st\<lparr>store := h2, usedEnums := map_set (usedEnums st) n a\<rparr>"
        by (auto simp: getEnumNameFromProperty_def Let_def)
      with False nf show ?thesis using fresh by (simp add: has_key_def)
    next
      case True
      show ?thesis
      proof (cases "find (\<lambda>newName. \<not> has_key (usedEnums st) newName) ?cands")
        case no: None
        with True assms scan None have "random_calls st1 = Suc (random_calls st)"
          by (auto simp add: getEnumNameFromProperty_def Let_def simp del: find.simps)
        then show ?thesis using fallback by simp
      next
        case (Some nm)
        from find_SomeD [OF Some] have nm: "\<not> has_key (usedEnums st) nm" by simp
        from Some True assms scan None
        have "n = nm \<and> st1 = st\<lparr>store := h2, usedEnums := map_set (usedEnums st) n a\<rparr>"
          by (auto simp add: getEnumNameFromProperty_def Let_def simp del: find.simps)
        with nm nf show ?thesis using fresh by (simp add: has_key_def)
      qed
    qed
  qed
qed

lemma random_calls_mono: "random_calls st \<le> random_calls (snd (allocate r st))"
proof (cases r)
  case (SchemaName a)
  obtain n st1 where step: "getClassNameFromSchemaName a st = (n, st1)"
    by (cases "getClassNameFromSchemaName a st")
  from step have "random_calls st \<le> random_calls st1"
    by (cases rule: getClassNameFromSchemaName_cases) simp_all
  with SchemaName step show ?thesis by simp
next
  case (OperationResponse opId statusCode)
  obtain n st1 where step: "getClassNameFromOperationId opId statusCode st = (n, st1)"
    by (cases "getClassNameFromOperationId opId statusCode st")
  from step have "random_calls st \<le> random_calls st1"
    by (cases rule: getClassNameFromOperationId_cases) simp_all
  with OperationResponse step show ?thesis by simp
next
  case (EnumValues p a c)
  obtain n st1 where step: "getEnumNameFromProperty p a c st = (n, st1)"
    by (cases "getEnumNameFromProperty p a c st")
  from step have "random_calls st \<le> random_calls st1"
    by (cases rule: getEnumNameFromProperty_cases) simp_all
  with EnumValues step show ?thesis by simp
qed

lemma random_calls_mono_all: "random_calls st \<le> random_calls (snd (allocate_all rs st))"
proof (induction rs arbitrary: st)
  case Nil
  then show ?case by simp
next
  case (Cons r rs)
  obtain n st1 where step: "allocate r st = (n, st1)" by (cases "allocate r st")
  obtain log st2 where rest: "allocate_all rs st1 = (log, st2)" by (cases "allocate_all rs st1")
  have "random_calls st \<le> random_calls st1"
    using random_calls_mono [of st r] step by simp
  also have "\<dots> \<le> random_calls st2"
    using Cons.IH [of st1] rest by simp
  finally show ?case using step rest by simp
qed

text \<open>Every allocation that does not reach the random token keeps the relation.\<close>

lemma registry_inv_step:
  assumes inv: "registry_inv h log st"
    and step: "allocate r st = (n, st1)"
    and norandom: "random_calls st1 = random_calls st"
  shows "registry_inv h (log @ [(r, n)]) st1"
proof (cases r)
  case (SchemaName a)
  with step have alloc: "getClassNameFromSchemaName a st = (n, st1)" by simp
  from alloc show ?thesis
  proof (cases rule: getClassNameFromSchemaName_cases)
    case cached
    with inv SchemaName show ?thesis
      by (auto simp: registry_inv_def is_operation_def)
  next
    case fresh
    from inv have ran: "\<And>b m. map_of (schemaToClassName st) b = Some m \<Longrightarrow> m \<in> set (usedNames st)"
      by (simp add: registry_inv_def)
    from inv fresh(1) have nolog: "\<And>m. (SchemaName a, m) \<notin> set log"
      by (auto simp: registry_inv_def)
    have ops: "\<And>rn. rn \<in> set log \<Longrightarrow> is_operation rn \<Longrightarrow> snd rn \<noteq> n"
      using inv fresh(2) by (auto simp: registry_inv_def)
    show ?thesis
      unfolding registry_inv_def
    proof (intro conjI)
      show "\<forall>b m. (SchemaName b, m) \<in> set (log @ [(r, n)]) \<longrightarrow>
          map_of (schemaToClassName st1) b = Some m"
        using inv fresh SchemaName nolog by (auto simp: registry_inv_def map_of_map_set)
      show "\<forall>b c m. map_of (schemaToClassName st1) b = Some m
          \<and> map_of (schemaToClassName st1) c = Some m \<longrightarrow> b = c"
        using inv fresh ran by (auto simp: registry_inv_def map_of_map_set split: if_splits)
      show "\<forall>b m. map_of (schemaToClassName st1) b = Some m \<longrightarrow> m \<in> set (usedNames st1)"
        using fresh ran by (auto simp: map_of_map_set split: if_splits)
      show "distinct (map snd (filter is_operation (log @ [(r, n)])))"
        using inv SchemaName by (simp add: registry_inv_def is_operation_def)
      show "\<forall>rn\<in>set (log @ [(r, n)]). is_operation rn \<longrightarrow>
          snd rn \<in> set (usedNames st1) \<and> (\<forall>b. map_of (schemaToClassName st1) b \<noteq> Some (snd rn))"
        using inv fresh SchemaName ops
        by (auto simp: registry_inv_def map_of_map_set is_operation_def split: if_splits)
      show "\<forall>p b c m. (EnumValues p b c, m) \<in> set (log @ [(r, n)]) \<longrightarrow>
          (\<exists>x. (m, x) \<in> set (usedEnums st1) \<and> js_sort (h x) = js_sort (h b))"
        using inv fresh SchemaName by (auto simp: registry_inv_def)
      show "distinct (map fst (usedEnums st1))"
        using inv fresh by (simp add: registry_inv_def)
      show "distinct (map (\<lambda>e. js_sort (h (snd e))) (usedEnums st1))"
        using inv fresh by (simp add: registry_inv_def)
      show "\<forall>x. js_sort (store st1 x) = js_sort (h x)"
        using inv fresh by (simp add: registry_inv_def)
    qed
  next
    case fallback
    with norandom show ?thesis by simp
  qed
next
  case (OperationResponse opId statusCode)
  with step have alloc: "getClassNameFromOperationId opId statusCode st = (n, st1)" by simp
  from alloc show ?thesis
  proof (cases rule: getClassNameFromOperationId_cases)
    case fresh
    from inv have ran: "\<And>b m. map_of (schemaToClassName st) b = Some m \<Longrightarrow> m \<in> set (usedNames st)"
      by (simp add: registry_inv_def)
    have ops: "\<And>rn. rn \<in> set log \<Longrightarrow> is_operation rn \<Longrightarrow> snd rn \<noteq> n"
      using inv fresh(1) by (auto simp: registry_inv_def)
    show ?thesis
      unfolding registry_inv_def
    proof (intro conjI)
      show "\<forall>b m. (SchemaName b, m) \<in> set (log @ [(r, n)]) \<longrightarrow>
          map_of (schemaToClassName st1) b = Some m"
        using inv fresh OperationResponse by (auto simp: registry_inv_def)
      show "\<forall>b c m. map_of (schemaToClassName st1) b = Some m
          \<and> map_of (schemaToClassName st1) c = Some m \<longrightarrow> b = c"
        using inv fresh by (auto simp: registry_inv_def)
      show "\<forall>b m. map_of (schemaToClassName st1) b = Some m \<longrightarrow> m \<in> set (usedNames st1)"
        using fresh ran by auto
      show "distinct (map snd (filter is_operation (log @ [(r, n)])))"
        using inv OperationResponse ops by (auto simp: registry_inv_def is_operation_def)
      show "\<forall>rn\<in>set (log @ [(r, n)]). is_operation rn \<longrightarrow>
          snd rn \<in> set (usedNames st1) \<and> (\<forall>b. map_of (schemaToClassName st1) b \<noteq> Some (snd rn))"
        using inv fresh ran by (auto simp: registry_inv_def)
      show "\<forall>p b c m. (EnumValues p b c, m) \<in> set (log @ [(r, n)]) \<longrightarrow>
          (\<exists>x. (m, x) \<in> set (usedEnums st1) \<and> js_sort (h x) = js_sort (h b))"
        using inv fresh OperationResponse by (auto simp: registry_inv_def)
      show "distinct (map fst (usedEnums st1))"
        using inv fresh by (simp add: registry_inv_def)
      show "distinct (map (\<lambda>e. js_sort (h (snd e))) (usedEnums st1))"
        using inv fresh by (simp add: registry_inv_def)
      show "\<forall>x. js_sort (store st1 x) = js_sort (h x)"
        using inv fresh by (simp add: registry_inv_def)
    qed
  next
    case fallback
    with norandom show ?thesis by simp
  qed
next
  case (EnumValues p a c)
  with step have alloc: "getEnumNameFromProperty p a c st = (n, st1)" by simp
  from inv have keys: "\<And>x. js_sort (store st x) = js_sort (h x)"
    by (simp add: registry_inv_def)
  let ?P = "\<lambda>(n' :: string, x). js_sort (h x) = js_sort (h a)"
  have P: "(\<lambda>(n' :: string, x). js_sort (store st x) = js_sort (store st a)) = ?P"
    by (simp add: keys)
  from getEnumNameFromProperty_spec [OF alloc] keys
  have keys1: "\<And>x. js_sort (store st1 x) = js_sort (h x)"
    and reg: "(case find ?P (usedEnums st) of
         Some (n', x) \<Rightarrow> n = n' \<and> usedEnums st1 = usedEnums st
       | None \<Rightarrow> usedEnums st1 = map_set (usedEnums st) n a)"
    by (simp_all add: P)
  from alloc have frame: "schemaToClassName st1 = schemaToClassName st \<and> usedNames st1 = usedNames st"
    using norandom by (cases rule: getEnumNameFromProperty_cases) simp_all
  have enums: "((n, a) \<in> set (usedEnums st1)
        \<or> (\<exists>x. (n, x) \<in> set (usedEnums st1) \<and> js_sort (h x) = js_sort (h a)))
      \<and> distinct (map fst (usedEnums st1))
      \<and> distinct (map (\<lambda>e. js_sort (h (snd e))) (usedEnums st1))
      \<and> set (usedEnums st) \<subseteq> set (usedEnums st1)"
  proof (cases "find ?P (usedEnums st)")
    case None
    from alloc have fresh: "n \<notin> fst ` set (usedEnums st)"
      using norandom None P by (cases rule: getEnumNameFromProperty_cases) simp_all
    from None reg fresh have ue: "usedEnums st1 = usedEnums st @ [(n, a)]"
      by (simp add: map_set_fresh)
    have "\<And>e. e \<in> set (usedEnums st) \<Longrightarrow> js_sort (h (snd e)) \<noteq> js_sort (h a)"
      using find_None_iff_all [OF None] by (auto split: prod.splits)
    then have newvalue: "js_sort (h a) \<notin> (\<lambda>e. js_sort (h (snd e))) ` set (usedEnums st)"
      by force
    from inv have "distinct (map fst (usedEnums st))"
      and "distinct (map (\<lambda>e. js_sort (h (snd e))) (usedEnums st))"
      by (simp_all add: registry_inv_def)
    with ue fresh newvalue show ?thesis
      by auto
  next
    case (Some e)
    from find_SomeD [OF Some] have "?P e" "e \<in> set (usedEnums st)" by simp_all
    moreover from Some reg have "fst e = n" "usedEnums st1 = usedEnums st"
      by (auto split: prod.splits)
    ultimately show ?thesis
      using inv by (cases e) (auto simp: registry_inv_def)
  qed
  then have entry: "(n, a) \<in> set (usedEnums st1)
        \<or> (\<exists>x. (n, x) \<in> set (usedEnums st1) \<and> js_sort (h x) = js_sort (h a))"
    and names: "distinct (map fst (usedEnums st1))"
    and vals: "distinct (map (\<lambda>e. js_sort (h (snd e))) (usedEnums st1))"
    and old: "set (usedEnums st) \<subseteq> set (usedEnums st1)"
    by simp_all
  show ?thesis
    unfolding registry_inv_def
  proof (intro conjI)
    show "\<forall>b m. (SchemaName b, m) \<in> set (log @ [(r, n)]) \<longrightarrow>
        map_of (schemaToClassName st1) b = Some m"
      using inv frame EnumValues by (auto simp: registry_inv_def)
    show "\<forall>b c m. map_of (schemaToClassName st1) b = Some m
        \<and> map_of (schemaToClassName st1) c = Some m \<longrightarrow> b = c"
      using inv frame by (auto simp: registry_inv_def)
    show "\<forall>b m. map_of (schemaToClassName st1) b = Some m \<longrightarrow> m \<in> set (usedNames st1)"
      using inv frame by (auto simp: registry_inv_def)
    show "distinct (map snd (filter is_operation (log @ [(r, n)])))"
      using inv EnumValues by (simp add: registry_inv_def is_operation_def)
    show "\<forall>rn\<in>set (log @ [(r, n)]). is_operation rn \<longrightarrow>
        snd rn \<in> set (usedNames st1) \<and> (\<forall>b. map_of (schemaToClassName st1) b \<noteq> Some (snd rn))"
      using inv frame EnumValues by (auto simp: registry_inv_def is_operation_def)
    show "\<forall>q b d m. (EnumValues q b d, m) \<in> set (log @ [(r, n)]) \<longrightarrow>
        (\<exists>x. (m, x) \<in> set (usedEnums st1) \<and> js_sort (h x) = js_sort (h b))"
    proof (intro allI impI)
      fix q b d m
      assume "(EnumValues q b d, m) \<in> set (log @ [(r, n)])"
      then consider "(EnumValues q b d, m) \<in> set log" | "b = a" "m = n"
        using EnumValues by auto
      then show "\<exists>x. (m, x) \<in> set (usedEnums st1) \<and> js_sort (h x) = js_sort (h b)"
      proof cases
        case 1
        with inv obtain x where "(m, x) \<in> set (usedEnums st)" "js_sort (h x) = js_sort (h b)"
          unfolding registry_inv_def by blast
        with old show ?thesis by blast
      next
        case 2
        with entry show ?thesis by blast
      qed
    qed
    show "distinct (map fst (usedEnums st1))" by (rule names)
    show "distinct (map (\<lambda>e. js_sort (h (snd e))) (usedEnums st1))" by (rule vals)
    show "\<forall>x. js_sort (store st1 x) = js_sort (h x)" using keys1 by simp
  qed
qed

lemma registry_inv_run:
  assumes "registry_inv h pre st"
    and "allocate_all rs st = (log, st')"
    and "random_calls st' = random_calls st"
  shows "registry_inv h (pre @ log) st'"
  using assms
proof (induction rs arbitrary: pre st log)
  case Nil
  then show ?case by simp
next
  case (Cons r rs)
  obtain n st1 where step: "allocate r st = (n, st1)" by (cases "allocate r st")
  obtain log1 st2 where rest: "allocate_all rs st1 = (log1, st2)"
    by (cases "allocate_all rs st1")
  from Cons.prems(2) step rest have log: "log = (r, n) # log1" and st': "st' = st2"
    by simp_all
  have "random_calls st \<le> random_calls st1"
    using random_calls_mono [of st r] step by simp
  moreover have "random_calls st1 \<le> random_calls st2"
    using random_calls_mono_all [of st1 rs] rest by simp
  ultimately have same1: "random_calls st1 = random_calls st"
    and same2: "random_calls st2 = random_calls st1"
    using Cons.prems(3) st' by simp_all
  have "registry_inv h (pre @ [(r, n)]) st1"
    using Cons.prems(1) step same1 by (rule registry_inv_step)
  moreover from rest st' have "allocate_all rs st1 = (log1, st')" by simp
  moreover from same2 st' have "random_calls st' = random_calls st1" by simp
  ultimately have "registry_inv h ((pre @ [(r, n)]) @ log1) st'"
    by (rule Cons.IH)
  with log show ?case by simp
qed

lemma registry_inv_initial: "registry_inv h [] (initial_state h tokens)"
  by (simp add: registry_inv_def initial_state_def)

text \<open>
  C3, the claim as stated: in each registry a repeated request for the same semantic key
  returns the name assigned before. It does not hold for the operation responses:
  \<open>getClassNameFromOperationId\<close> keeps no cache, and a second request for the response
  200 of \<open>getPet\<close> is given the name with the first free suffix of the ladder.
\<close>

theorem repeated_operation_request_gets_new_name:
  "map snd (fst (allocate_all
      [OperationResponse ''getPet'' ''200'', OperationResponse ''getPet'' ''200'']
      (initial_state empty_store no_tokens))) =
   [''GetPet200Response'', ''GetPet200ResponseDetail'']"
  by code_simp

text \<open>
  C3, amended: in a run of allocation requests that starts with empty registries and does
  not reach the random token of the ladder, two requests for schema names are given the
  same class name exactly when the schema names are equal, and two requests for
  enumerations are given the same enum name exactly when their arrays are equal up to
  sorting; the class names given to operation responses are pairwise distinct, also for
  repeated requests of one operation and status code, and differ from the class names given
  to schema names.
\<close>

theorem registries_assign_names_injectively:
  assumes "allocate_all rs (initial_state h tokens) = (log, st)"
    and "random_calls st = 0"
  shows "(\<forall>a b n m. (SchemaName a, n) \<in> set log \<longrightarrow> (SchemaName b, m) \<in> set log \<longrightarrow>
            (n = m) = (a = b))
    \<and> (\<forall>p a c q b d n m.
          (EnumValues p a c, n) \<in> set log \<longrightarrow> (EnumValues q b d, m) \<in> set log \<longrightarrow>
            (n = m) = (js_sort (h a) = js_sort (h b)))
    \<and> distinct (map snd (filter is_operation log))
    \<and> (\<forall>opId statusCode a n m.
          (OperationResponse opId statusCode, n) \<in> set log \<longrightarrow> (SchemaName a, m) \<in> set log \<longrightarrow>
            n \<noteq> m)"
proof -
  have "random_calls st = random_calls (initial_state h tokens)"
    using assms(2) by (simp add: initial_state_def)
  with registry_inv_initial assms(1) have "registry_inv h ([] @ log) st"
    by (rule registry_inv_run)
  then have inv: "registry_inv h log st" by simp
  have schema: "\<forall>a b n m. (SchemaName a, n) \<in> set log \<longrightarrow> (SchemaName b, m) \<in> set log \<longrightarrow>
      (n = m) = (a = b)"
  proof (intro allI impI)
    fix a b n m
    assume "(SchemaName a, n) \<in> set log" "(SchemaName b, m) \<in> set log"
    with inv have "map_of (schemaToClassName st) a = Some n"
      and "map_of (schemaToClassName st) b = Some m"
      by (auto simp: registry_inv_def)
    moreover from inv have "\<And>x y k. map_of (schemaToClassName st) x = Some k \<Longrightarrow>
        map_of (schemaToClassName st) y = Some k \<Longrightarrow> x = y"
      unfolding registry_inv_def by blast
    ultimately show "(n = m) = (a = b)" by auto
  qed
  have enums: "\<forall>p a c q b d n m.
      (EnumValues p a c, n) \<in> set log \<longrightarrow> (EnumValues q b d, m) \<in> set log \<longrightarrow>
      (n = m) = (js_sort (h a) = js_sort (h b))"
  proof (intro allI impI)
    fix p a c q b d n m
    assume "(EnumValues p a c, n) \<in> set log" "(EnumValues q b d, m) \<in> set log"
    moreover from inv have "\<And>p a c n. (EnumValues p a c, n) \<in> set log \<Longrightarrow>
        \<exists>x. (n, x) \<in> set (usedEnums st) \<and> js_sort (h x) = js_sort (h a)"
      by (simp add: registry_inv_def)
    ultimately obtain x y where x: "(n, x) \<in> set (usedEnums st)" "js_sort (h x) = js_sort (h a)"
      and y: "(m, y) \<in> set (usedEnums st)" "js_sort (h y) = js_sort (h b)"
      by blast
    from inv have names: "distinct (map fst (usedEnums st))"
      and vals: "distinct (map (\<lambda>e. js_sort (h (snd e))) (usedEnums st))"
      by (simp_all add: registry_inv_def)
    show "(n = m) = (js_sort (h a) = js_sort (h b))"
    proof
      assume "n = m"
      with names x(1) y(1) have "x = y"
        by (metis eq_key_imp_eq_value)
      with x(2) y(2) show "js_sort (h a) = js_sort (h b)" by simp
    next
      assume "js_sort (h a) = js_sort (h b)"
      with x(2) y(2) have "js_sort (h (snd (n, x))) = js_sort (h (snd (m, y)))" by simp
      with vals x(1) y(1) have "(n, x) = (m, y)"
        by (meson distinct_map inj_onD)
      then show "n = m" by simp
    qed
  qed
  have ops: "distinct (map snd (filter is_operation log))"
    using inv by (simp add: registry_inv_def)
  have cross: "\<forall>opId statusCode a n m.
      (OperationResponse opId statusCode, n) \<in> set log \<longrightarrow> (SchemaName a, m) \<in> set log \<longrightarrow>
      n \<noteq> m"
  proof (intro allI impI)
    fix opId statusCode a n m
    assume op: "(OperationResponse opId statusCode, n) \<in> set log"
      and sc: "(SchemaName a, m) \<in> set log"
    from op have "is_operation (OperationResponse opId statusCode, n)"
      by (simp add: is_operation_def)
    with inv op have "map_of (schemaToClassName st) a \<noteq> Some n"
      unfolding registry_inv_def by fastforce
    moreover from inv sc have "map_of (schemaToClassName st) a = Some m"
      by (auto simp: registry_inv_def)
    ultimately show "n \<noteq> m" by auto
  qed
  from schema enums ops cross show ?thesis by blast
qed

theorem registries_assign_names_injectively_witness:
  "fst (allocate_all example_requests (initial_state heapAB no_tokens)) =
     [(SchemaName ''Pet'', ''Pet''),
      (OperationResponse ''getPet'' ''200'', ''GetPet200Response''),
      (SchemaName ''Pet'', ''Pet''),
      (SchemaName ''Dog'', ''Dog''),
      (OperationResponse ''getPet'' ''200'', ''GetPet200ResponseDetail''),
      (EnumValues ''kind'' 0 ''Order'', ''OrderKind''),
      (EnumValues ''category'' 1 ''Item'', ''OrderKind'')]
   \<and> random_calls (snd (allocate_all example_requests (initial_state heapAB no_tokens))) = 0
   \<and> distinct (map snd (filter is_operation
         (fst (allocate_all example_requests (initial_state heapAB no_tokens)))))"
proof -
  have run: "allocate_all example_requests (initial_state heapAB no_tokens) =
      (fst (allocate_all example_requests (initial_state heapAB no_tokens)),
       snd (allocate_all example_requests (initial_state heapAB no_tokens)))"
    by simp
  have norandom:
    "random_calls (snd (allocate_all example_requests (initial_state heapAB no_tokens))) = 0"
    by code_simp
  have log: "fst (allocate_all example_requests (initial_state heapAB no_tokens)) =
     [(SchemaName ''Pet'', ''Pet''),
      (OperationResponse ''getPet'' ''200'', ''GetPet200Response''),
      (SchemaName ''Pet'', ''Pet''),
      (SchemaName ''Dog'', ''Dog''),
      (OperationResponse ''getPet'' ''200'', ''GetPet200ResponseDetail''),
      (EnumValues ''kind'' 0 ''Order'', ''OrderKind''),
      (EnumValues ''category'' 1 ''Item'', ''OrderKind'')]"
    by code_simp
  from registries_assign_names_injectively [OF run norandom]
  have "distinct (map snd (filter is_operation
      (fst (allocate_all example_requests (initial_state heapAB no_tokens)))))"
    by blast
  with norandom log show ?thesis by blast
qed

end
